theory Spec2Isabelle
  imports Complex_Main "HOL-Library.Log_Nat"
begin

section \<open>JavaScript numbers and strings\<close>

text \<open>
  The scheduler computes with JavaScript numbers that hold minute counts. They are
  modelled as integers plus the value \<open>NaN\<close>, which every arithmetic operation
  propagates and every comparison answers with false; sums and differences of minute
  counts are exact, as they are in JavaScript for whole numbers below \<open>2\<^sup>5\<^sup>3\<close>.
  Quantities that the forms enter with a fractional step, or that the code feeds to
  \<open>Math.ceil\<close>, are rationals, and a product, quotient or difference of them is rounded
  as JavaScript rounds it (below). The infinities are outside the model.
\<close>

datatype jsnum = NaN | Num int

fun js_add :: "jsnum \<Rightarrow> jsnum \<Rightarrow> jsnum" where
  "js_add (Num a) (Num b) = Num (a + b)"
| "js_add _ _ = NaN"

fun js_sub :: "jsnum \<Rightarrow> jsnum \<Rightarrow> jsnum" where
  "js_sub (Num a) (Num b) = Num (a - b)"
| "js_sub _ _ = NaN"

fun js_mul :: "jsnum \<Rightarrow> jsnum \<Rightarrow> jsnum" where
  "js_mul (Num a) (Num b) = Num (a * b)"
| "js_mul _ _ = NaN"

text \<open>\<open>Math.min\<close> answers \<open>NaN\<close> as soon as one argument is \<open>NaN\<close>.\<close>

fun js_min :: "jsnum \<Rightarrow> jsnum \<Rightarrow> jsnum" where
  "js_min (Num a) (Num b) = Num (min a b)"
| "js_min _ _ = NaN"

text \<open>Comparisons of a minute count with a rational bound; \<open>NaN\<close> compares false.\<close>

fun js_gt :: "jsnum \<Rightarrow> rat \<Rightarrow> bool" where
  "js_gt (Num a) q = (of_int a > q)"
| "js_gt NaN q = False"

fun js_ge :: "jsnum \<Rightarrow> rat \<Rightarrow> bool" where
  "js_ge (Num a) q = (of_int a \<ge> q)"
| "js_ge NaN q = False"

fun js_lt :: "jsnum \<Rightarrow> rat \<Rightarrow> bool" where
  "js_lt (Num a) q = (of_int a < q)"
| "js_lt NaN q = False"

subsection \<open>Rounding\<close>

text \<open>
  A JavaScript number is an IEEE 754 binary64 number, and an arithmetic operation returns
  the binary64 number nearest to the exact result, a tie going to the even significand.
  \<open>binaryExponent x\<close> is the \<open>e\<close> with \<open>2\<^sup>e \<le> x < 2\<^sup>e\<^sup>+\<^sup>1\<close> for a positive \<open>x\<close>,
  \<open>roundHalfEven\<close> the nearest whole number, and \<open>binary64 x\<close> the number with a
  significand of 53 bits nearest to \<open>x\<close>. Magnitudes below \<open>2\<^sup>-\<^sup>1\<^sup>0\<^sup>2\<^sup>2\<close>, where binary64
  has fewer bits, and beyond the largest binary64 number are outside the model.
\<close>

definition binaryExponent :: "rat \<Rightarrow> int" where
  "binaryExponent x = (if 1 \<le> x then bitlen \<lfloor>x\<rfloor> - 1 else - bitlen (\<lceil>1 / x\<rceil> - 1))"

definition roundHalfEven :: "rat \<Rightarrow> int" where
  "roundHalfEven z =
     (let f = \<lfloor>z\<rfloor>; r = z - of_int f
      in if r < 1 / 2 then f else if 1 / 2 < r then f + 1 else if even f then f else f + 1)"

definition binary64 :: "rat \<Rightarrow> rat" where
  "binary64 x =
     (if x = 0 then 0
      else let e = binaryExponent \<bar>x\<bar>
           in sgn x * (of_int (roundHalfEven (\<bar>x\<bar> * 2 powi (52 - e))) * 2 powi (e - 52)))"

text \<open>\<open>a * b\<close>, \<open>a / b\<close> and \<open>a - b\<close> on such numbers.\<close>

definition fmul :: "rat \<Rightarrow> rat \<Rightarrow> rat" where
  "fmul a b = binary64 (a * b)"

definition fdiv :: "rat \<Rightarrow> rat \<Rightarrow> rat" where
  "fdiv a b = binary64 (a / b)"

definition fsub :: "rat \<Rightarrow> rat \<Rightarrow> rat" where
  "fsub a b = binary64 (a - b)"

text \<open>The remainder operator \<open>%\<close> truncates: the result has the sign of the dividend.\<close>

definition js_rem :: "int \<Rightarrow> int \<Rightarrow> int" where
  "js_rem a b = sgn a * (\<bar>a\<bar> mod \<bar>b\<bar>)"

subsection \<open>Decimal text\<close>

definition digit_char :: "nat \<Rightarrow> char" where
  "digit_char n = char_of (48 + n)"

definition is_digit :: "char \<Rightarrow> bool" where
  "is_digit c = (48 \<le> (of_char c :: nat) \<and> (of_char c :: nat) \<le> 57)"

definition digit_val :: "char \<Rightarrow> nat" where
  "digit_val c = of_char c - 48"

fun string_of_nat :: "nat \<Rightarrow> string" where
  "string_of_nat n =
     (if n < 10 then [digit_char n] else string_of_nat (n div 10) @ [digit_char (n mod 10)])"

declare string_of_nat.simps [simp del]

text \<open>\<open>String(i)\<close> for an integer \<open>i\<close>.\<close>

definition string_of_int :: "int \<Rightarrow> string" where
  "string_of_int i =
     (if i < 0 then CHR ''-'' # string_of_nat (nat (- i)) else string_of_nat (nat i))"

definition nat_of_digits :: "string \<Rightarrow> nat" where
  "nat_of_digits s = foldl (\<lambda>acc c. 10 * acc + digit_val c) 0 s"

definition all_digits :: "string \<Rightarrow> bool" where
  "all_digits s = (s \<noteq> [] \<and> list_all is_digit s)"

text \<open>
  \<open>Number(s)\<close> on the integer literals: the empty string is 0, an optional sign
  followed by decimal digits is that integer, and any other text is \<open>NaN\<close>.
  JavaScript also reads surrounding white space, fractions, exponents, radix prefixes
  and \<open>Infinity\<close>; those forms are not modelled and are read as \<open>NaN\<close> here.
\<close>

definition js_Number :: "string \<Rightarrow> jsnum" where
  "js_Number s =
     (case s of
        [] \<Rightarrow> Num 0
      | c # r \<Rightarrow>
          if c = CHR ''-'' then (if all_digits r then Num (- int (nat_of_digits r)) else NaN)
          else if c = CHR ''+'' then (if all_digits r then Num (int (nat_of_digits r)) else NaN)
          else if all_digits s then Num (int (nat_of_digits s)) else NaN)"

text \<open>\<open>s.split(':')\<close>: always at least one field.\<close>

fun split_colon :: "string \<Rightarrow> string list" where
  "split_colon [] = [[]]"
| "split_colon (c # cs) =
     (if c = CHR '':'' then [] # split_colon cs
      else (case split_colon cs of [] \<Rightarrow> [[c]] | f # fs \<Rightarrow> (c # f) # fs))"

text \<open>\<open>s.padStart(2, '0')\<close>.\<close>

definition padStart2 :: "string \<Rightarrow> string" where
  "padStart2 s = replicate (2 - length s) (CHR ''0'') @ s"

section \<open>Time arithmetic (scheduler.ts)\<close>

text \<open>
  \<open>const [h, m] = t.split(':').map(Number); return h * 60 + m\<close>. With a single
  field \<open>m\<close> is \<open>undefined\<close> and the sum is \<open>NaN\<close>; fields after the second
  are ignored. The function has no failure path.
\<close>

definition timeToMinutes :: "string \<Rightarrow> jsnum" where
  "timeToMinutes t =
     (case map js_Number (split_colon t) of
        h # m # _ \<Rightarrow> js_add (js_mul h (Num 60)) m
      | _ \<Rightarrow> NaN)"

fun minutesToTime :: "jsnum \<Rightarrow> string" where
  "minutesToTime NaN = ''NaN:NaN''"
| "minutesToTime (Num total_mins) =
     (let h = total_mins div 60; m = js_rem total_mins 60
      in padStart2 (string_of_int h) @ '':'' @ padStart2 (string_of_int m))"

subsection \<open>The seven dates of the window\<close>

text \<open>
  \<open>new Date(weekStart)\<close>, the \<open>getDate\<close> and \<open>setDate\<close> of \<open>addDays\<close>, which
  count days in local time, and the \<open>toISOString().slice(0, 10)\<close> of \<open>toDateStr\<close>,
  which prints in UTC, are the runtime's: which strings it reads as dates and which seven
  strings the loop over \<open>i = 0, \<dots>, 6\<close> yields in the time zone of the machine is not
  decided by this program. The model takes that outcome as a parameter, as it does for
  \<open>blockId\<close>: \<open>dayDatesOf weekStart\<close> is the list of the seven strings
  \<open>toDateStr(addDays(weekStartDate, i))\<close>, or \<open>None\<close> where \<open>toISOString\<close> raises
  \<open>RangeError\<close> on an invalid date. Nothing is assumed of the list: where the local
  clock changes inside the week it holds one date twice.
\<close>

type_synonym calendar = "string \<Rightarrow> string list option"

section \<open>Data model (types.ts)\<close>

text \<open>
  The records keep the fields that the capacity evaluator and the allocator read or write;
  display-only fields (names, titles, notes, locations) are left out. An optional field is
  an \<open>option\<close>.
\<close>

datatype EnergyType = Deep | Light | Admin

datatype TaskType = GoalTask | DeadlineTask | FixedEvent | LocationTask | MicroTask

datatype BlockStatus = Pending | InProgress | Completed | Skipped

record Goal =
  goal_id :: string
  weeklyQuotaHours :: "rat option"
  weeklyQuotaSessions :: "int option"
  priorityTier :: nat
  active :: bool

record Task =
  task_id :: string
  taskType :: TaskType
  goalId :: "string option"
  estimatedMinutes :: rat
  task_energyType :: EnergyType
  deadline :: "string option"
  dueTime :: "string option"
  completed :: bool

record ScheduledBlock =
  block_id :: string
  taskId :: string
  date :: string
  startTime :: string
  endTime :: string
  bufferMinutes :: int
  energyType :: EnergyType
  status :: BlockStatus
  skipReason :: "string option"
  sortOrder :: int

record CapacitySettings =
  weeklyDiscretionaryHours :: rat
  sleepStart :: string
  sleepEnd :: string
  workStart :: string
  workEnd :: string
  workDays :: int
  maxDeepBlocksPerDay :: int
  maxPlannedHoursPerDay :: rat
  bufferPercent :: rat

record AppState =
  goals :: "Goal list"
  tasks :: "Task list"
  scheduledBlocks :: "ScheduledBlock list"
  capacity :: "CapacitySettings option"

definition DEFAULT_CAPACITY :: CapacitySettings where
  "DEFAULT_CAPACITY =
     \<lparr>weeklyDiscretionaryHours = 25, sleepStart = ''23:00'', sleepEnd = ''07:00'',
      workStart = ''09:00'', workEnd = ''17:00'', workDays = 5, maxDeepBlocksPerDay = 3,
      maxPlannedHoursPerDay = 6, bufferPercent = 25\<rparr>"

text \<open>JavaScript truthiness of an optional string: \<open>undefined\<close> and \<open>''\<close> are falsy.\<close>

definition truthy :: "string option \<Rightarrow> bool" where
  "truthy s = (case s of None \<Rightarrow> False | Some x \<Rightarrow> x \<noteq> [])"

section \<open>Capacity evaluator (capacity.ts)\<close>

definition counts_on :: "string \<Rightarrow> ScheduledBlock \<Rightarrow> bool" where
  "counts_on d b = (date b = d \<and> (status b = Pending \<or> status b = InProgress))"

text \<open>
  The reducer of \<open>getPlannedMinutesForDay\<close>: it splits and converts both clock strings
  exactly as \<open>timeToMinutes\<close> does, then adds the block's minutes and, when asked, its
  buffer to the running sum.
\<close>

definition blockMins :: "ScheduledBlock \<Rightarrow> jsnum" where
  "blockMins b = js_sub (timeToMinutes (endTime b)) (timeToMinutes (startTime b))"

definition getPlannedMinutesForDay :: "ScheduledBlock list \<Rightarrow> string \<Rightarrow> bool \<Rightarrow> jsnum" where
  "getPlannedMinutesForDay blocks d includeBuffer =
     foldl (\<lambda>sum b. js_add (js_add sum (blockMins b))
                           (Num (if includeBuffer then bufferMinutes b else 0)))
       (Num 0) (filter (counts_on d) blocks)"

definition getDeepBlockCountForDay :: "ScheduledBlock list \<Rightarrow> string \<Rightarrow> nat" where
  "getDeepBlockCountForDay blocks d =
     length (filter (\<lambda>b. date b = d \<and> energyType b = Deep \<and>
                          (status b = Pending \<or> status b = InProgress)) blocks)"

text \<open>
  The two reason texts are templates around one number each:
  \<open>Daily planned time would exceed ${maxPlannedHoursPerDay}h. Remove something first.\<close>
  and \<open>Max ${maxDeepBlocksPerDay} deep-work blocks per day.\<close>
\<close>

datatype LimitReason = DailyPlannedTimeWouldExceed rat | MaxDeepWorkBlocks int

record LimitCheck =
  ok :: bool
  reason :: "LimitReason option"

definition wouldExceedDailyLimits ::
  "CapacitySettings \<Rightarrow> ScheduledBlock list \<Rightarrow> string \<Rightarrow> int \<Rightarrow> EnergyType \<Rightarrow> LimitCheck" where
  "wouldExceedDailyLimits cap blocks d newBlockMinutes energy =
     (let plannedMins = getPlannedMinutesForDay blocks d True;
          maxMins = fmul (maxPlannedHoursPerDay cap) 60
      in if js_gt (js_add plannedMins (Num newBlockMinutes)) maxMins
         then \<lparr>ok = False,
               reason = Some (DailyPlannedTimeWouldExceed (maxPlannedHoursPerDay cap))\<rparr>
         else if energy = Deep \<and>
                 int (getDeepBlockCountForDay blocks d) \<ge> maxDeepBlocksPerDay cap
         then \<lparr>ok = False, reason = Some (MaxDeepWorkBlocks (maxDeepBlocksPerDay cap))\<rparr>
         else \<lparr>ok = True, reason = None\<rparr>)"

datatype error = RangeError

definition getWeeklyPlannedMinutes ::
  "calendar \<Rightarrow> ScheduledBlock list \<Rightarrow> string \<Rightarrow> error + jsnum" where
  "getWeeklyPlannedMinutes dayDatesOf blocks weekStart =
     (case dayDatesOf weekStart of
        None \<Rightarrow> Inl RangeError
      | Some ds \<Rightarrow>
          Inr (foldl (\<lambda>total_w d. js_add total_w (getPlannedMinutesForDay blocks d True))
                 (Num 0) ds))"

definition getWeeklyCapacityMinutes :: "CapacitySettings \<Rightarrow> rat" where
  "getWeeklyCapacityMinutes cap = fmul (weeklyDiscretionaryHours cap) 60"

section \<open>Weekly allocator (scheduler.ts)\<close>

definition BUFFER_MULTIPLIER :: rat where
  "BUFFER_MULTIPLIER = 5 / 4"

text \<open>
  \<open>blockId()\<close> builds an identifier from \<open>Date.now()\<close> and \<open>Math.random()\<close>.
  Both are inputs from outside the program: the model takes the sequence of identifiers as
  a parameter, \<open>blockId n\<close> being the value of call number \<open>n\<close>. Every call sits in
  the object literal of a \<open>blocks.push\<close>, so the call number is the number of blocks
  pushed so far.
\<close>

type_synonym idgen = "nat \<Rightarrow> string"

subsection \<open>Pass 1: fixed events\<close>

definition isFixedTask :: "Task \<Rightarrow> bool" where
  "isFixedTask t =
     (\<not> completed t \<and>
      (taskType t = FixedEvent \<or> (taskType t = DeadlineTask \<and> truthy (dueTime t))))"

text \<open>
  One iteration of the loop over \<open>fixedTasks\<close>. \<open>dayDates[0]\<close> of an empty array
  would be \<open>undefined\<close>, which \<open>includes\<close> does not find.
\<close>

definition placeFixed ::
  "idgen \<Rightarrow> CapacitySettings \<Rightarrow> string list \<Rightarrow> ScheduledBlock list \<Rightarrow> Task \<Rightarrow> ScheduledBlock list" where
  "placeFixed blockId cap dayDates blocks task =
     (case (if truthy (deadline task) then map_option (take 10) (deadline task)
            else (case dayDates of [] \<Rightarrow> None | d0 # _ \<Rightarrow> Some d0)) of
        None \<Rightarrow> blocks
      | Some d \<Rightarrow>
          if d \<notin> set dayDates then blocks
          else
            let mins = \<lceil>fmul (estimatedMinutes task) BUFFER_MULTIPLIER\<rceil>;
                buffer = \<lceil>fmul (estimatedMinutes task) (fdiv (bufferPercent cap) 100)\<rceil>;
                start = (case dueTime task of Some s \<Rightarrow> s | None \<Rightarrow> workStart cap);
                startMins = timeToMinutes start;
                endMins = js_add (js_add startMins (Num mins)) (Num buffer)
            in blocks @
               [\<lparr>block_id = blockId (length blocks), taskId = task_id task, date = d,
                 startTime = start, endTime = minutesToTime endMins, bufferMinutes = buffer,
                 energyType = task_energyType task, status = Pending, skipReason = None,
                 sortOrder = 1\<rparr>])"

subsection \<open>Pass 2: deadline tasks without a fixed time\<close>

definition isDeadlineTask :: "Task list \<Rightarrow> Task \<Rightarrow> bool" where
  "isDeadlineTask fixedTasks t =
     (\<not> completed t \<and> taskType t = DeadlineTask \<and> truthy (deadline t) \<and>
      \<not> truthy (dueTime t) \<and> \<not> list_ex (\<lambda>f. task_id f = task_id t) fixedTasks)"

text \<open>The filter guarantees a deadline; the \<open>None\<close> branch is never taken.\<close>

definition placeDeadline ::
  "idgen \<Rightarrow> CapacitySettings \<Rightarrow> jsnum \<Rightarrow> jsnum \<Rightarrow> string list \<Rightarrow> ScheduledBlock list \<Rightarrow> Task
     \<Rightarrow> ScheduledBlock list" where
  "placeDeadline blockId cap workStartMins workEndMins dayDates blocks task =
     (case deadline task of
        None \<Rightarrow> blocks
      | Some dl \<Rightarrow>
          let d = take 10 dl in
          if d \<notin> set dayDates then blocks
          else
            let totalMins = \<lceil>fmul (estimatedMinutes task) BUFFER_MULTIPLIER\<rceil>;
                buffer = \<lceil>fmul (estimatedMinutes task) (fdiv (bufferPercent cap) 100)\<rceil>;
                check = wouldExceedDailyLimits cap blocks d (totalMins + buffer)
                          (task_energyType task)
            in if \<not> ok check then blocks
               else
                 let existingMins = getPlannedMinutesForDay blocks d True;
                     startMins = js_add workStartMins
                       (js_min existingMins
                          (js_sub (js_sub (js_sub workEndMins workStartMins) (Num totalMins))
                             (Num buffer)))
                 in blocks @
                    [\<lparr>block_id = blockId (length blocks), taskId = task_id task, date = d,
                      startTime = minutesToTime startMins,
                      endTime = minutesToTime
                                  (js_add (js_add startMins (Num totalMins)) (Num buffer)),
                      bufferMinutes = buffer, energyType = task_energyType task,
                      status = Pending, skipReason = None, sortOrder = 2\<rparr>])"

subsection \<open>Pass 3: goal quotas by tier\<close>

definition quotaSessions :: "Goal \<Rightarrow> int" where
  "quotaSessions goal =
     (case weeklyQuotaSessions goal of
        Some n \<Rightarrow> n
      | None \<Rightarrow>
          (case weeklyQuotaHours goal of
             None \<Rightarrow> 0
           | Some h \<Rightarrow> if h = 0 then 0 else \<lceil>h\<rceil>))"

definition pickGoalTask :: "Task list \<Rightarrow> nat \<Rightarrow> int \<Rightarrow> Task option" where
  "pickGoalTask goalTasks deepCount maxDeep =
     (case find (\<lambda>t. task_energyType t = Deep \<and> int deepCount < maxDeep) goalTasks of
        Some t \<Rightarrow> Some t
      | None \<Rightarrow>
          (case find (\<lambda>t. int deepCount < maxDeep) goalTasks of
             Some t \<Rightarrow> Some t
           | None \<Rightarrow> (case goalTasks of [] \<Rightarrow> None | t # _ \<Rightarrow> Some t)))"

text \<open>
  The state of the loop over the dates for one goal: the shared block list, the set
  \<open>scheduledTaskIds\<close> and the counter \<open>sessionsPlaced\<close>.
\<close>

type_synonym goal_state = "ScheduledBlock list \<times> string set \<times> int"

definition goalDay ::
  "idgen \<Rightarrow> CapacitySettings \<Rightarrow> jsnum \<Rightarrow> jsnum \<Rightarrow> Task list \<Rightarrow> string \<Rightarrow> goal_state \<Rightarrow> goal_state" where
  "goalDay blockId cap workStartMins workEndMins goalTasks d st =
     (case st of (blocks, scheduledTaskIds, sessionsPlaced) \<Rightarrow>
        let deepCount = getDeepBlockCountForDay blocks d;
            plannedMins = getPlannedMinutesForDay blocks d True
        in if (case plannedMins of
                 NaN \<Rightarrow> False
               | Num p \<Rightarrow> fsub (fmul (maxPlannedHoursPerDay cap) 60) (of_int p) < 30) then st
           else
             (case pickGoalTask goalTasks deepCount (maxDeepBlocksPerDay cap) of
                None \<Rightarrow> st
              | Some task \<Rightarrow>
                  let totalMins = \<lceil>fmul (estimatedMinutes task) BUFFER_MULTIPLIER\<rceil>;
                      buffer = \<lceil>fmul (estimatedMinutes task) (fdiv (bufferPercent cap) 100)\<rceil>;
                      check = wouldExceedDailyLimits cap blocks d (totalMins + buffer)
                                (task_energyType task)
                  in if \<not> ok check then st
                     else
                       let existingMins = getPlannedMinutesForDay blocks d True;
                           startMins = js_add workStartMins
                             (js_min existingMins
                                (js_sub (js_sub (js_sub workEndMins workStartMins)
                                           (Num totalMins)) (Num buffer)))
                       in (blocks @
                           [\<lparr>block_id = blockId (length blocks), taskId = task_id task,
                             date = d, startTime = minutesToTime startMins,
                             endTime = minutesToTime
                                         (js_add (js_add startMins (Num totalMins))
                                            (Num buffer)),
                             bufferMinutes = buffer, energyType = task_energyType task,
                             status = Pending, skipReason = None, sortOrder = 3\<rparr>],
                           insert (task_id task) scheduledTaskIds, sessionsPlaced + 1)))"

text \<open>The loop over the dates; \<open>break\<close> ends it once the quota is met.\<close>

fun goalDays ::
  "idgen \<Rightarrow> CapacitySettings \<Rightarrow> jsnum \<Rightarrow> jsnum \<Rightarrow> int \<Rightarrow> Task list \<Rightarrow> string list \<Rightarrow> goal_state
     \<Rightarrow> goal_state" where
  "goalDays blockId cap workStartMins workEndMins quota goalTasks [] st = st"
| "goalDays blockId cap workStartMins workEndMins quota goalTasks (d # ds) st =
     (if snd (snd st) \<ge> quota then st
      else goalDays blockId cap workStartMins workEndMins quota goalTasks ds
             (goalDay blockId cap workStartMins workEndMins goalTasks d st))"

text \<open>
  One iteration of the loop over the active goals. \<open>goalTasks\<close> is computed once, before
  the dates are visited.
\<close>

definition scheduleGoal ::
  "idgen \<Rightarrow> CapacitySettings \<Rightarrow> jsnum \<Rightarrow> jsnum \<Rightarrow> Task list \<Rightarrow> string list
     \<Rightarrow> ScheduledBlock list \<times> string set \<Rightarrow> Goal \<Rightarrow> ScheduledBlock list \<times> string set" where
  "scheduleGoal blockId cap workStartMins workEndMins ts dayDates acc goal =
     (case acc of (blocks, scheduledTaskIds) \<Rightarrow>
        if quotaSessions goal \<le> 0 then acc
        else
          let goalTasks = filter (\<lambda>t. \<not> completed t \<and> taskType t = GoalTask \<and>
                                       goalId t = Some (goal_id goal) \<and>
                                       task_id t \<notin> scheduledTaskIds) ts
          in (case goalDays blockId cap workStartMins workEndMins (quotaSessions goal)
                     goalTasks dayDates (blocks, scheduledTaskIds, 0) of
                (blocks', scheduledTaskIds', _) \<Rightarrow> (blocks', scheduledTaskIds')))"

subsection \<open>Pass 4: one micro task per day\<close>

definition isMicroTask :: "Task \<Rightarrow> bool" where
  "isMicroTask t = (\<not> completed t \<and> taskType t = MicroTask \<and> estimatedMinutes t \<le> 15)"

definition placeMicro ::
  "idgen \<Rightarrow> CapacitySettings \<Rightarrow> jsnum \<Rightarrow> jsnum \<Rightarrow> Task list \<Rightarrow> ScheduledBlock list \<Rightarrow> string
     \<Rightarrow> ScheduledBlock list" where
  "placeMicro blockId cap workStartMins workEndMins microTasks blocks d =
     (let planned = getPlannedMinutesForDay blocks d True
      in if js_ge planned (fsub (fmul (maxPlannedHoursPerDay cap) 60) 20) then blocks
         else
           (case find (\<lambda>t. \<not> list_ex (\<lambda>b. taskId b = task_id t \<and> date b = d) blocks)
                   microTasks of
              None \<Rightarrow> blocks
            | Some task \<Rightarrow>
                let totalMins = 15 + 5;
                    existingMins = getPlannedMinutesForDay blocks d True;
                    startMins = js_add workStartMins
                      (js_min existingMins
                         (js_sub (js_sub workEndMins workStartMins) (Num totalMins)))
                in blocks @
                   [\<lparr>block_id = blockId (length blocks), taskId = task_id task, date = d,
                     startTime = minutesToTime startMins,
                     endTime = minutesToTime (js_add startMins (Num totalMins)),
                     bufferMinutes = 5, energyType = Light, status = Pending,
                     skipReason = None, sortOrder = 4\<rparr>]))"

subsection \<open>The final sort and the entry point\<close>

text \<open>
  \<open>localeCompare\<close> is modelled as the comparison of code units, which is what it
  amounts to on ISO dates. \<open>Array.prototype.sort\<close> is stable: an insertion sort that
  puts an element before the first strictly greater one.
\<close>

fun localeCompare :: "string \<Rightarrow> string \<Rightarrow> int" where
  "localeCompare [] [] = 0"
| "localeCompare [] (y # ys) = - 1"
| "localeCompare (x # xs) [] = 1"
| "localeCompare (x # xs) (y # ys) =
     (if x = y then localeCompare xs ys
      else if (of_char x :: nat) < of_char y then - 1 else 1)"

definition compareBlocks :: "ScheduledBlock \<Rightarrow> ScheduledBlock \<Rightarrow> int" where
  "compareBlocks a b =
     (if date a \<noteq> date b then localeCompare (date a) (date b) else sortOrder a - sortOrder b)"

fun insertBlock :: "ScheduledBlock \<Rightarrow> ScheduledBlock list \<Rightarrow> ScheduledBlock list" where
  "insertBlock x [] = [x]"
| "insertBlock x (y # ys) =
     (if compareBlocks x y \<le> 0 then x # y # ys else y # insertBlock x ys)"

definition sortBlocks :: "ScheduledBlock list \<Rightarrow> ScheduledBlock list" where
  "sortBlocks blocks = foldr insertBlock blocks []"

definition fixedPass :: "idgen \<Rightarrow> CapacitySettings \<Rightarrow> string list \<Rightarrow> Task list \<Rightarrow> ScheduledBlock list" where
  "fixedPass blockId cap dayDates ts =
     foldl (placeFixed blockId cap dayDates) [] (filter isFixedTask ts)"

definition deadlinePass ::
  "idgen \<Rightarrow> CapacitySettings \<Rightarrow> string list \<Rightarrow> Task list \<Rightarrow> ScheduledBlock list
     \<Rightarrow> ScheduledBlock list" where
  "deadlinePass blockId cap dayDates ts blocks =
     foldl (placeDeadline blockId cap (timeToMinutes (workStart cap))
              (timeToMinutes (workEnd cap)) dayDates)
       blocks (filter (isDeadlineTask (filter isFixedTask ts)) ts)"

definition goalPass ::
  "idgen \<Rightarrow> CapacitySettings \<Rightarrow> string list \<Rightarrow> Goal list \<Rightarrow> Task list \<Rightarrow> ScheduledBlock list
     \<Rightarrow> ScheduledBlock list" where
  "goalPass blockId cap dayDates gs ts blocks =
     fst (foldl (scheduleGoal blockId cap (timeToMinutes (workStart cap))
                   (timeToMinutes (workEnd cap)) ts dayDates)
            (blocks, set (map taskId blocks))
            (sort_key priorityTier (filter active gs)))"

definition microPass ::
  "idgen \<Rightarrow> CapacitySettings \<Rightarrow> string list \<Rightarrow> Task list \<Rightarrow> ScheduledBlock list
     \<Rightarrow> ScheduledBlock list" where
  "microPass blockId cap dayDates ts blocks =
     foldl (placeMicro blockId cap (timeToMinutes (workStart cap))
              (timeToMinutes (workEnd cap)) (filter isMicroTask ts))
       blocks dayDates"

text \<open>\<open>state.capacity ?? DEFAULT_CAPACITY\<close>.\<close>

definition capacityOf :: "AppState \<Rightarrow> CapacitySettings" where
  "capacityOf state = (case capacity state of None \<Rightarrow> DEFAULT_CAPACITY | Some c \<Rightarrow> c)"

text \<open>The block list after passes 1 to 3, which pass 4 then extends.\<close>

definition priorityBlocks :: "idgen \<Rightarrow> AppState \<Rightarrow> string list \<Rightarrow> ScheduledBlock list" where
  "priorityBlocks blockId state dayDates =
     (let cap = capacityOf state
      in goalPass blockId cap dayDates (goals state) (tasks state)
           (deadlinePass blockId cap dayDates (tasks state)
              (fixedPass blockId cap dayDates (tasks state))))"

definition allocate :: "idgen \<Rightarrow> AppState \<Rightarrow> string list \<Rightarrow> ScheduledBlock list" where
  "allocate blockId state dayDates =
     microPass blockId (capacityOf state) dayDates (tasks state)
       (priorityBlocks blockId state dayDates)"

text \<open>
  \<open>runWeeklyScheduler(state, weekStart)\<close>: the four passes over the seven dates, then
  the sort. An invalid \<open>weekStart\<close> makes \<open>toISOString\<close> raise before any block is
  built.
\<close>

definition runWeeklyScheduler ::
  "idgen \<Rightarrow> calendar \<Rightarrow> AppState \<Rightarrow> string \<Rightarrow> error + ScheduledBlock list" where
  "runWeeklyScheduler blockId dayDatesOf state weekStart =
     (case dayDatesOf weekStart of
        None \<Rightarrow> Inl RangeError
      | Some dayDates \<Rightarrow> Inr (sortBlocks (allocate blockId state dayDates)))"

section \<open>Vocabulary of the properties\<close>

text \<open>The two amounts every pass computes from a task: the padded estimate and the buffer.\<close>

definition totalMinsOf :: "Task \<Rightarrow> int" where
  "totalMinsOf t = \<lceil>fmul (estimatedMinutes t) BUFFER_MULTIPLIER\<rceil>"

definition bufferOf :: "CapacitySettings \<Rightarrow> Task \<Rightarrow> int" where
  "bufferOf cap t = \<lceil>fmul (estimatedMinutes t) (fdiv (bufferPercent cap) 100)\<rceil>"

text \<open>The object pushed by pass 1 for task \<open>t\<close> on date \<open>d\<close>.\<close>

definition fixedBlock :: "string \<Rightarrow> CapacitySettings \<Rightarrow> Task \<Rightarrow> string \<Rightarrow> ScheduledBlock" where
  "fixedBlock bid cap t d =
     (let start = (case dueTime t of Some s \<Rightarrow> s | None \<Rightarrow> workStart cap)
      in \<lparr>block_id = bid, taskId = task_id t, date = d, startTime = start,
          endTime = minutesToTime
            (js_add (js_add (timeToMinutes start) (Num (totalMinsOf t))) (Num (bufferOf cap t))),
          bufferMinutes = bufferOf cap t, energyType = task_energyType t, status = Pending,
          skipReason = None, sortOrder = 1\<rparr>)"

text \<open>
  The start of a block that passes 2 to 4 stack into the work window, and the object they
  push: \<open>dur\<close> minutes long from that start.
\<close>

definition stackStart :: "jsnum \<Rightarrow> jsnum \<Rightarrow> jsnum \<Rightarrow> int \<Rightarrow> jsnum" where
  "stackStart workStartMins workEndMins existingMins dur =
     js_add workStartMins
       (js_min existingMins (js_sub (js_sub workEndMins workStartMins) (Num dur)))"

definition stackedBlock ::
  "string \<Rightarrow> string \<Rightarrow> string \<Rightarrow> jsnum \<Rightarrow> int \<Rightarrow> int \<Rightarrow> EnergyType \<Rightarrow> int \<Rightarrow> ScheduledBlock" where
  "stackedBlock bid tid d startMins dur buf en so =
     \<lparr>block_id = bid, taskId = tid, date = d, startTime = minutesToTime startMins,
      endTime = minutesToTime (js_add startMins (Num dur)), bufferMinutes = buf,
      energyType = en, status = Pending, skipReason = None, sortOrder = so\<rparr>"

text \<open>
  The block lists the allocator can reach: it only ever appends, a pass-1 block without
  any check, a pass-2 or pass-3 block after \<open>wouldExceedDailyLimits\<close> allowed it, a micro
  block after its own two tests. The flag \<open>mic\<close> says whether micro blocks may occur:
  they do not before pass 4.
\<close>

inductive built ::
  "CapacitySettings \<Rightarrow> Task list \<Rightarrow> string list \<Rightarrow> bool \<Rightarrow> ScheduledBlock list \<Rightarrow> bool"
  for cap :: CapacitySettings and ts :: "Task list" and dd :: "string list" and mic :: bool
  where
  built_Nil: "built cap ts dd mic []"
| built_fixed:
    "built cap ts dd mic blocks \<Longrightarrow> t \<in> set ts \<Longrightarrow> isFixedTask t \<Longrightarrow> d \<in> set dd \<Longrightarrow>
     built cap ts dd mic (blocks @ [fixedBlock bid cap t d])"
| built_priority:
    "built cap ts dd mic blocks \<Longrightarrow> t \<in> set ts \<Longrightarrow> \<not> isFixedTask t \<Longrightarrow> d \<in> set dd \<Longrightarrow>
     ok (wouldExceedDailyLimits cap blocks d (totalMinsOf t + bufferOf cap t)
           (task_energyType t)) \<Longrightarrow>
     so = 2 \<or> so = 3 \<Longrightarrow>
     built cap ts dd mic
       (blocks @
        [stackedBlock bid (task_id t) d
           (stackStart (timeToMinutes (workStart cap)) (timeToMinutes (workEnd cap))
              (getPlannedMinutesForDay blocks d True) (totalMinsOf t + bufferOf cap t))
           (totalMinsOf t + bufferOf cap t) (bufferOf cap t) (task_energyType t) so])"
| built_micro:
    "built cap ts dd mic blocks \<Longrightarrow> t \<in> set ts \<Longrightarrow> isMicroTask t \<Longrightarrow> d \<in> set dd \<Longrightarrow>
     \<not> js_ge (getPlannedMinutesForDay blocks d True) (fsub (fmul (maxPlannedHoursPerDay cap) 60) 20) \<Longrightarrow>
     \<not> list_ex (\<lambda>b. taskId b = task_id t \<and> date b = d) blocks \<Longrightarrow> mic \<Longrightarrow>
     built cap ts dd mic
       (blocks @
        [stackedBlock bid (task_id t) d
           (stackStart (timeToMinutes (workStart cap)) (timeToMinutes (workEnd cap))
              (getPlannedMinutesForDay blocks d True) 20)
           20 5 Light 4])"

text \<open>
  A well-formed clock string: two digits, a colon, two digits, with the hour below 24 and
  the minute below 60; and the minutes since midnight that it names.
\<close>

definition is_HHmm :: "string \<Rightarrow> bool" where
  "is_HHmm t =
     (case t of
        [h1, h2, c, m1, m2] \<Rightarrow>
          c = CHR '':'' \<and> is_digit h1 \<and> is_digit h2 \<and> is_digit m1 \<and> is_digit m2 \<and>
          nat_of_digits [h1, h2] < 24 \<and> nat_of_digits [m1, m2] < 60
      | _ \<Rightarrow> False)"

definition clockMinutes :: "string \<Rightarrow> int" where
  "clockMinutes t = 60 * int (nat_of_digits (take 2 t)) + int (nat_of_digits (drop 3 t))"

text \<open>
  What two runs are compared on: every field that locates a block, not its identifier.
  \<open>eraseId\<close> blanks the identifier.
\<close>

definition blockView :: "ScheduledBlock \<Rightarrow> string \<times> string \<times> string \<times> string \<times> int" where
  "blockView b = (date b, taskId b, startTime b, endTime b, sortOrder b)"

definition eraseId :: "ScheduledBlock \<Rightarrow> ScheduledBlock" where
  "eraseId b = b\<lparr>block_id := []\<rparr>"

definition eraseState :: "goal_state \<Rightarrow> goal_state" where
  "eraseState st = (case st of (blocks, ids, n) \<Rightarrow> (map eraseId blocks, ids, n))"

text \<open>
  The inputs on which clock strings and minute counts are what they are meant to be: the
  work window is given by two well-formed clock strings, the daily cap does not reach
  past the end of the work window counted from midnight, no estimate or buffer percentage
  is negative, and a due time, where a task has one, is a well-formed clock string.
\<close>

definition wellFormedInput :: "CapacitySettings \<Rightarrow> Task list \<Rightarrow> bool" where
  "wellFormedInput cap ts =
     (is_HHmm (workStart cap) \<and> is_HHmm (workEnd cap) \<and> 0 \<le> bufferPercent cap \<and>
      fmul (maxPlannedHoursPerDay cap) 60 \<le> of_int (clockMinutes (workEnd cap)) \<and>
      (\<forall>t\<in>set ts. 0 \<le> estimatedMinutes t \<and>
                   (case dueTime t of None \<Rightarrow> True | Some s \<Rightarrow> is_HHmm s)))"

text \<open>
  The minutes of a block as an integer, the day's planned minutes as a plain sum, and the
  blocks whose two clock strings read back as numbers, in order, from a start that is not
  negative.
\<close>

definition minsOf :: "ScheduledBlock \<Rightarrow> int" where
  "minsOf b = (case blockMins b of Num x \<Rightarrow> x | NaN \<Rightarrow> 0)"

definition plannedInt :: "ScheduledBlock list \<Rightarrow> string \<Rightarrow> bool \<Rightarrow> int" where
  "plannedInt bs d includeBuffer =
     sum_list (map (\<lambda>b. minsOf b + (if includeBuffer then bufferMinutes b else 0))
                 (filter (counts_on d) bs))"

definition sound :: "ScheduledBlock \<Rightarrow> bool" where
  "sound b =
     (status b = Pending \<and> 0 \<le> bufferMinutes b \<and>
      (\<exists>s e. timeToMinutes (startTime b) = Num s \<and> timeToMinutes (endTime b) = Num e \<and>
             0 \<le> s \<and> s \<le> e))"


definition startInt :: "ScheduledBlock \<Rightarrow> int" where
  "startInt b = (case timeToMinutes (startTime b) of Num x \<Rightarrow> x | NaN \<Rightarrow> 0)"

definition endInt :: "ScheduledBlock \<Rightarrow> int" where
  "endInt b = (case timeToMinutes (endTime b) of Num x \<Rightarrow> x | NaN \<Rightarrow> 0)"

definition overlaps :: "ScheduledBlock \<Rightarrow> ScheduledBlock \<Rightarrow> bool" where
  "overlaps a b =
     (timeToMinutes (startTime a) \<noteq> NaN \<and> timeToMinutes (endTime a) \<noteq> NaN \<and>
      timeToMinutes (startTime b) \<noteq> NaN \<and> timeToMinutes (endTime b) \<noteq> NaN \<and>
      max (startInt a) (startInt b) < min (endInt a) (endInt b))"

text \<open>
  A micro block as pass 4 builds it on top of the blocks \<open>base\<close> of passes 1 to 3: the day
  had room, the task is a micro task without a block on that day, and the block is
  stacked after the planned minutes of the day.
\<close>

definition microBlockOn ::
  "CapacitySettings \<Rightarrow> Task list \<Rightarrow> ScheduledBlock list \<Rightarrow> ScheduledBlock \<Rightarrow> bool" where
  "microBlockOn cap mts base m =
     (\<exists>t\<in>set mts. \<exists>bid.
        \<not> js_ge (getPlannedMinutesForDay base (date m) True)
             (fsub (fmul (maxPlannedHoursPerDay cap) 60) 20) \<and>
        \<not> list_ex (\<lambda>b. taskId b = task_id t \<and> date b = date m) base \<and>
        m = stackedBlock bid (task_id t) (date m)
              (stackStart (timeToMinutes (workStart cap)) (timeToMinutes (workEnd cap))
                 (getPlannedMinutesForDay base (date m) True) 20)
              20 5 Light 4)"

text \<open>What identifies a placement: the task and the date.\<close>

definition blockKey :: "ScheduledBlock \<Rightarrow> string \<times> string" where
  "blockKey b = (taskId b, date b)"

section \<open>The same functions over a store of arrays\<close>

text \<open>
  JavaScript arrays are objects in a store, and some array methods change the array they
  are called on. To tell which arrays a call changes, the functions are written once more
  over an explicit store: a list of cells addressed by position. \<open>filter\<close> and
  \<open>map\<close> allocate a fresh array; \<open>push\<close> and \<open>sort\<close> overwrite the cell of the
  array they are called on; \<open>reduce\<close>, \<open>find\<close>, \<open>some\<close>, \<open>includes\<close>, \<open>length\<close>
  and indexing only read. The objects inside the arrays are values: no statement of these
  functions assigns to a property of a goal, a task, a block or the capacity settings.
\<close>

datatype cell =
  GoalArr "Goal list"
| TaskArr "Task list"
| BlockArr "ScheduledBlock list"
| StrArr "string list"
| CapObj "CapacitySettings option"

type_synonym heap = "cell list"

definition alloc :: "heap \<Rightarrow> cell \<Rightarrow> nat \<times> heap" where
  "alloc h c = (length h, h @ [c])"

definition goalsAt :: "heap \<Rightarrow> nat \<Rightarrow> Goal list" where
  "goalsAt h r = (if r < length h then (case h ! r of GoalArr gs \<Rightarrow> gs | _ \<Rightarrow> []) else [])"

definition tasksAt :: "heap \<Rightarrow> nat \<Rightarrow> Task list" where
  "tasksAt h r = (if r < length h then (case h ! r of TaskArr ts \<Rightarrow> ts | _ \<Rightarrow> []) else [])"

definition blocksAt :: "heap \<Rightarrow> nat \<Rightarrow> ScheduledBlock list" where
  "blocksAt h r = (if r < length h then (case h ! r of BlockArr bs \<Rightarrow> bs | _ \<Rightarrow> []) else [])"

definition strsAt :: "heap \<Rightarrow> nat \<Rightarrow> string list" where
  "strsAt h r = (if r < length h then (case h ! r of StrArr xs \<Rightarrow> xs | _ \<Rightarrow> []) else [])"

definition capAt :: "heap \<Rightarrow> nat \<Rightarrow> CapacitySettings option" where
  "capAt h r = (if r < length h then (case h ! r of CapObj c \<Rightarrow> c | _ \<Rightarrow> None) else None)"

text \<open>The state object holds references to its arrays and to the capacity settings.\<close>

record StateRef =
  goalsRef :: nat
  tasksRef :: nat
  scheduledBlocksRef :: nat
  capacityRef :: nat

definition stateOf :: "heap \<Rightarrow> StateRef \<Rightarrow> AppState" where
  "stateOf h s =
     \<lparr>goals = goalsAt h (goalsRef s), tasks = tasksAt h (tasksRef s),
      scheduledBlocks = blocksAt h (scheduledBlocksRef s), capacity = capAt h (capacityRef s)\<rparr>"

text \<open>\<open>blocks.push(b)\<close>.\<close>

definition pushBlock :: "nat \<Rightarrow> ScheduledBlock \<Rightarrow> heap \<Rightarrow> heap" where
  "pushBlock r b h = h[r := BlockArr (blocksAt h r @ [b])]"

subsection \<open>capacity.ts over the store\<close>

definition getPlannedMinutesForDayH :: "heap \<Rightarrow> nat \<Rightarrow> string \<Rightarrow> bool \<Rightarrow> jsnum \<times> heap" where
  "getPlannedMinutesForDayH h blocks d includeBuffer =
     (case alloc h (BlockArr (filter (counts_on d) (blocksAt h blocks))) of
        (kept, h1) \<Rightarrow>
          (foldl (\<lambda>sum b. js_add (js_add sum (blockMins b))
                                (Num (if includeBuffer then bufferMinutes b else 0)))
             (Num 0) (blocksAt h1 kept), h1))"

definition getDeepBlockCountForDayH :: "heap \<Rightarrow> nat \<Rightarrow> string \<Rightarrow> nat \<times> heap" where
  "getDeepBlockCountForDayH h blocks d =
     (case alloc h (BlockArr (filter (\<lambda>b. date b = d \<and> energyType b = Deep \<and>
                                          (status b = Pending \<or> status b = InProgress))
                                (blocksAt h blocks))) of
        (kept, h1) \<Rightarrow> (length (blocksAt h1 kept), h1))"

definition wouldExceedDailyLimitsH ::
  "heap \<Rightarrow> CapacitySettings \<Rightarrow> nat \<Rightarrow> string \<Rightarrow> int \<Rightarrow> EnergyType \<Rightarrow> LimitCheck \<times> heap" where
  "wouldExceedDailyLimitsH h cap blocks d newBlockMinutes energy =
     (case getPlannedMinutesForDayH h blocks d True of
        (plannedMins, h1) \<Rightarrow>
          if js_gt (js_add plannedMins (Num newBlockMinutes)) (fmul (maxPlannedHoursPerDay cap) 60)
          then (\<lparr>ok = False,
                 reason = Some (DailyPlannedTimeWouldExceed (maxPlannedHoursPerDay cap))\<rparr>, h1)
          else if energy = Deep
          then (case getDeepBlockCountForDayH h1 blocks d of
                  (deepCount, h2) \<Rightarrow>
                    if int deepCount \<ge> maxDeepBlocksPerDay cap
                    then (\<lparr>ok = False,
                           reason = Some (MaxDeepWorkBlocks (maxDeepBlocksPerDay cap))\<rparr>, h2)
                    else (\<lparr>ok = True, reason = None\<rparr>, h2))
          else (\<lparr>ok = True, reason = None\<rparr>, h1))"

fun weeklySumH :: "nat \<Rightarrow> string list \<Rightarrow> jsnum \<times> heap \<Rightarrow> jsnum \<times> heap" where
  "weeklySumH blocks [] acc = acc"
| "weeklySumH blocks (d # ds) acc =
     (case acc of
        (total_w, h) \<Rightarrow>
          (case getPlannedMinutesForDayH h blocks d True of
             (mins, h1) \<Rightarrow> weeklySumH blocks ds (js_add total_w mins, h1)))"

definition getWeeklyPlannedMinutesH ::
  "calendar \<Rightarrow> heap \<Rightarrow> nat \<Rightarrow> string \<Rightarrow> (error + jsnum) \<times> heap" where
  "getWeeklyPlannedMinutesH dayDatesOf h blocks weekStart =
     (case dayDatesOf weekStart of
        None \<Rightarrow> (Inl RangeError, h)
      | Some ds \<Rightarrow>
          (case weeklySumH blocks ds (Num 0, h) of (total_w, h1) \<Rightarrow> (Inr total_w, h1)))"

subsection \<open>scheduler.ts over the store\<close>

definition placeFixedH ::
  "idgen \<Rightarrow> CapacitySettings \<Rightarrow> nat \<Rightarrow> nat \<Rightarrow> heap \<Rightarrow> Task \<Rightarrow> heap" where
  "placeFixedH blockId cap dayDates blocks h task =
     (case (if truthy (deadline task) then map_option (take 10) (deadline task)
            else (case strsAt h dayDates of [] \<Rightarrow> None | d0 # _ \<Rightarrow> Some d0)) of
        None \<Rightarrow> h
      | Some d \<Rightarrow>
          if d \<notin> set (strsAt h dayDates) then h
          else pushBlock blocks
                 (fixedBlock (blockId (length (blocksAt h blocks))) cap task d) h)"

definition placeDeadlineH ::
  "idgen \<Rightarrow> CapacitySettings \<Rightarrow> jsnum \<Rightarrow> jsnum \<Rightarrow> nat \<Rightarrow> nat \<Rightarrow> heap \<Rightarrow> Task \<Rightarrow> heap" where
  "placeDeadlineH blockId cap workStartMins workEndMins dayDates blocks h task =
     (case deadline task of
        None \<Rightarrow> h
      | Some dl \<Rightarrow>
          let d = take 10 dl in
          if d \<notin> set (strsAt h dayDates) then h
          else
            (case wouldExceedDailyLimitsH h cap blocks d (totalMinsOf task + bufferOf cap task)
                    (task_energyType task) of
               (check, h1) \<Rightarrow>
                 if \<not> ok check then h1
                 else
                   (case getPlannedMinutesForDayH h1 blocks d True of
                      (existingMins, h2) \<Rightarrow>
                        pushBlock blocks
                          (stackedBlock (blockId (length (blocksAt h2 blocks))) (task_id task) d
                             (stackStart workStartMins workEndMins existingMins
                                (totalMinsOf task + bufferOf cap task))
                             (totalMinsOf task + bufferOf cap task) (bufferOf cap task)
                             (task_energyType task) 2)
                          h2)))"

type_synonym goal_stateH = "heap \<times> string set \<times> int"

definition goalDayH ::
  "idgen \<Rightarrow> CapacitySettings \<Rightarrow> jsnum \<Rightarrow> jsnum \<Rightarrow> nat \<Rightarrow> nat \<Rightarrow> string \<Rightarrow> goal_stateH
     \<Rightarrow> goal_stateH" where
  "goalDayH blockId cap workStartMins workEndMins goalTasks blocks d st =
     (case st of (h, scheduledTaskIds, sessionsPlaced) \<Rightarrow>
        (case getDeepBlockCountForDayH h blocks d of
           (deepCount, h1) \<Rightarrow>
             (case getPlannedMinutesForDayH h1 blocks d True of
                (plannedMins, h2) \<Rightarrow>
                  if (case plannedMins of
                        NaN \<Rightarrow> False
                      | Num p \<Rightarrow> fsub (fmul (maxPlannedHoursPerDay cap) 60) (of_int p) < 30)
                  then (h2, scheduledTaskIds, sessionsPlaced)
                  else
                    (case pickGoalTask (tasksAt h2 goalTasks) deepCount
                            (maxDeepBlocksPerDay cap) of
                       None \<Rightarrow> (h2, scheduledTaskIds, sessionsPlaced)
                     | Some task \<Rightarrow>
                         (case wouldExceedDailyLimitsH h2 cap blocks d
                                 (totalMinsOf task + bufferOf cap task)
                                 (task_energyType task) of
                            (check, h3) \<Rightarrow>
                              if \<not> ok check then (h3, scheduledTaskIds, sessionsPlaced)
                              else
                                (case getPlannedMinutesForDayH h3 blocks d True of
                                   (existingMins, h4) \<Rightarrow>
                                     (pushBlock blocks
                                        (stackedBlock (blockId (length (blocksAt h4 blocks)))
                                           (task_id task) d
                                           (stackStart workStartMins workEndMins existingMins
                                              (totalMinsOf task + bufferOf cap task))
                                           (totalMinsOf task + bufferOf cap task)
                                           (bufferOf cap task) (task_energyType task) 3)
                                        h4,
                                      insert (task_id task) scheduledTaskIds,
                                      sessionsPlaced + 1)))))))"

fun goalDaysH ::
  "idgen \<Rightarrow> CapacitySettings \<Rightarrow> jsnum \<Rightarrow> jsnum \<Rightarrow> int \<Rightarrow> nat \<Rightarrow> nat \<Rightarrow> string list
     \<Rightarrow> goal_stateH \<Rightarrow> goal_stateH" where
  "goalDaysH blockId cap workStartMins workEndMins quota goalTasks blocks [] st = st"
| "goalDaysH blockId cap workStartMins workEndMins quota goalTasks blocks (d # ds) st =
     (if snd (snd st) \<ge> quota then st
      else goalDaysH blockId cap workStartMins workEndMins quota goalTasks blocks ds
             (goalDayH blockId cap workStartMins workEndMins goalTasks blocks d st))"

definition scheduleGoalH ::
  "idgen \<Rightarrow> CapacitySettings \<Rightarrow> jsnum \<Rightarrow> jsnum \<Rightarrow> nat \<Rightarrow> nat \<Rightarrow> nat \<Rightarrow> heap \<times> string set
     \<Rightarrow> Goal \<Rightarrow> heap \<times> string set" where
  "scheduleGoalH blockId cap workStartMins workEndMins tasksR dayDates blocks acc goal =
     (case acc of (h, scheduledTaskIds) \<Rightarrow>
        if quotaSessions goal \<le> 0 then acc
        else
          (case alloc h (TaskArr (filter (\<lambda>t. \<not> completed t \<and> taskType t = GoalTask \<and>
                                               goalId t = Some (goal_id goal) \<and>
                                               task_id t \<notin> scheduledTaskIds)
                                     (tasksAt h tasksR))) of
             (goalTasks, h1) \<Rightarrow>
               (case goalDaysH blockId cap workStartMins workEndMins (quotaSessions goal)
                       goalTasks blocks (strsAt h1 dayDates) (h1, scheduledTaskIds, 0) of
                  (h2, scheduledTaskIds', _) \<Rightarrow> (h2, scheduledTaskIds'))))"

definition placeMicroH ::
  "idgen \<Rightarrow> CapacitySettings \<Rightarrow> jsnum \<Rightarrow> jsnum \<Rightarrow> nat \<Rightarrow> nat \<Rightarrow> heap \<Rightarrow> string \<Rightarrow> heap" where
  "placeMicroH blockId cap workStartMins workEndMins microTasks blocks h d =
     (case getPlannedMinutesForDayH h blocks d True of
        (planned, h1) \<Rightarrow>
          if js_ge planned (fsub (fmul (maxPlannedHoursPerDay cap) 60) 20) then h1
          else
            (case find (\<lambda>t. \<not> list_ex (\<lambda>b. taskId b = task_id t \<and> date b = d)
                                   (blocksAt h1 blocks))
                    (tasksAt h1 microTasks) of
               None \<Rightarrow> h1
             | Some task \<Rightarrow>
                 (case getPlannedMinutesForDayH h1 blocks d True of
                    (existingMins, h2) \<Rightarrow>
                      pushBlock blocks
                        (stackedBlock (blockId (length (blocksAt h2 blocks))) (task_id task) d
                           (stackStart workStartMins workEndMins existingMins 20) 20 5 Light 4)
                        h2)))"

text \<open>
  The four passes. Every filter of \<open>state.tasks\<close> or \<open>state.goals\<close> is a fresh array,
  and the sort of the active goals works on that fresh array; \<open>blocks.map\<close> for the set
  of scheduled identifiers is one more. Pass 1 hands \<open>fixedTasks\<close> on to pass 2.
\<close>

definition fixedPassH ::
  "idgen \<Rightarrow> CapacitySettings \<Rightarrow> nat \<Rightarrow> nat \<Rightarrow> nat \<Rightarrow> heap \<Rightarrow> nat \<times> heap" where
  "fixedPassH blockId cap tasksR dayDates blocks h =
     (case alloc h (TaskArr (filter isFixedTask (tasksAt h tasksR))) of
        (fixedTasks, h1) \<Rightarrow>
          (fixedTasks,
           foldl (placeFixedH blockId cap dayDates blocks) h1 (tasksAt h1 fixedTasks)))"

definition deadlinePassH ::
  "idgen \<Rightarrow> CapacitySettings \<Rightarrow> nat \<Rightarrow> nat \<Rightarrow> nat \<Rightarrow> nat \<Rightarrow> heap \<Rightarrow> heap" where
  "deadlinePassH blockId cap tasksR fixedTasks dayDates blocks h =
     (case alloc h (TaskArr (filter (isDeadlineTask (tasksAt h fixedTasks))
                               (tasksAt h tasksR))) of
        (deadlineTasks, h1) \<Rightarrow>
          foldl (placeDeadlineH blockId cap (timeToMinutes (workStart cap))
                   (timeToMinutes (workEnd cap)) dayDates blocks)
            h1 (tasksAt h1 deadlineTasks))"

definition goalPassH ::
  "idgen \<Rightarrow> CapacitySettings \<Rightarrow> nat \<Rightarrow> nat \<Rightarrow> nat \<Rightarrow> nat \<Rightarrow> heap \<Rightarrow> heap" where
  "goalPassH blockId cap goalsR tasksR dayDates blocks h =
     (case alloc h (StrArr (map taskId (blocksAt h blocks))) of
        (idArr, h1) \<Rightarrow>
          (case alloc h1 (GoalArr (filter active (goalsAt h1 goalsR))) of
             (activeGoals, h2) \<Rightarrow>
               let h3 = h2[activeGoals :=
                             GoalArr (sort_key priorityTier (goalsAt h2 activeGoals))]
               in fst (foldl (scheduleGoalH blockId cap (timeToMinutes (workStart cap))
                                (timeToMinutes (workEnd cap)) tasksR dayDates blocks)
                         (h3, set (strsAt h3 idArr)) (goalsAt h3 activeGoals))))"

definition microPassH ::
  "idgen \<Rightarrow> CapacitySettings \<Rightarrow> nat \<Rightarrow> nat \<Rightarrow> nat \<Rightarrow> heap \<Rightarrow> heap" where
  "microPassH blockId cap tasksR dayDates blocks h =
     (case alloc h (TaskArr (filter isMicroTask (tasksAt h tasksR))) of
        (microTasks, h1) \<Rightarrow>
          foldl (placeMicroH blockId cap (timeToMinutes (workStart cap))
                   (timeToMinutes (workEnd cap)) microTasks blocks)
            h1 (strsAt h1 dayDates))"

text \<open>
  The entry point. \<open>blocks\<close> and \<open>dayDates\<close> are fresh arrays. The seven pushes to
  \<open>dayDates\<close> are one write to its cell; a date that cannot be formatted raises in the
  first of them. The final sort works on \<open>blocks\<close>, whose reference is returned.
\<close>

definition runWeeklySchedulerH ::
  "idgen \<Rightarrow> calendar \<Rightarrow> heap \<Rightarrow> StateRef \<Rightarrow> string \<Rightarrow> (error + nat) \<times> heap" where
  "runWeeklySchedulerH blockId dayDatesOf h s weekStart =
     (case alloc h (BlockArr []) of
        (blocks, h0) \<Rightarrow>
          let cap = capacityOf (stateOf h0 s)
          in (case alloc h0 (StrArr []) of
                (dayDates, h1) \<Rightarrow>
                  (case dayDatesOf weekStart of
                     None \<Rightarrow> (Inl RangeError, h1)
                   | Some dd \<Rightarrow>
                       let h2 = h1[dayDates := StrArr (strsAt h1 dayDates @ dd)] in
                       (case fixedPassH blockId cap (tasksRef s) dayDates blocks h2 of
                          (fixedTasks, h3) \<Rightarrow>
                            let h4 = deadlinePassH blockId cap (tasksRef s) fixedTasks
                                       dayDates blocks h3;
                                h5 = goalPassH blockId cap (goalsRef s) (tasksRef s)
                                       dayDates blocks h4;
                                h6 = microPassH blockId cap (tasksRef s) dayDates blocks h5
                            in (Inr blocks,
                                h6[blocks := BlockArr (sortBlocks (blocksAt h6 blocks))])))))"

text \<open>The array a returned reference stands for, and whether the reference is new.\<close>

definition resultBlocks :: "(error + nat) \<times> heap \<Rightarrow> error + ScheduledBlock list" where
  "resultBlocks r = map_sum id (blocksAt (snd r)) (fst r)"

definition freshResult :: "heap \<Rightarrow> (error + nat) \<times> heap \<Rightarrow> bool" where
  "freshResult h r = (case fst r of Inl e \<Rightarrow> True | Inr a \<Rightarrow> length h \<le> a)"

text \<open>
  A store \<open>h'\<close> that grew out of \<open>h\<close> by allocations and by writes to the array at
  \<open>r\<close> only.
\<close>

definition grows :: "nat \<Rightarrow> heap \<Rightarrow> heap \<Rightarrow> bool" where
  "grows r h h' = (length h \<le> length h' \<and> (\<forall>a<length h. a \<noteq> r \<longrightarrow> h' ! a = h ! a))"

text \<open>
  The cell at \<open>r\<close> holds a block array; and the two together: \<open>h'\<close> grew out of \<open>h\<close>
  and holds the block list \<open>bs\<close> at \<open>r\<close>.
\<close>

definition live :: "heap \<Rightarrow> nat \<Rightarrow> bool" where
  "live h r = (r < length h \<and> (case h ! r of BlockArr bs \<Rightarrow> True | _ \<Rightarrow> False))"

definition tracks :: "nat \<Rightarrow> heap \<Rightarrow> heap \<Rightarrow> ScheduledBlock list \<Rightarrow> bool" where
  "tracks r h h' bs = (grows r h h' \<and> live h' r \<and> blocksAt h' r = bs)"

section \<open>Sample inputs\<close>

text \<open>A week, a generator of identifiers, and short forms for tasks, states and blocks.\<close>

definition sampleWeek :: "string list" where
  "sampleWeek = [''2025-02-24'', ''2025-02-25'', ''2025-02-26'', ''2025-02-27'',
                 ''2025-02-28'', ''2025-03-01'', ''2025-03-02'']"

text \<open>
  A runtime that reads \<open>2025-02-24\<close> as a date and counts that week without a clock
  change, as every zone does in that week of February, and reads no other string.
\<close>

definition sampleCalendar :: calendar where
  "sampleCalendar weekStart = (if weekStart = ''2025-02-24'' then Some sampleWeek else None)"

definition sampleIds :: idgen where
  "sampleIds n = ''blk''"

definition sampleTask :: "string \<Rightarrow> TaskType \<Rightarrow> rat \<Rightarrow> EnergyType \<Rightarrow> Task" where
  "sampleTask i ty e en =
     \<lparr>task_id = i, taskType = ty, goalId = None, estimatedMinutes = e,
      task_energyType = en, deadline = None, dueTime = None, completed = False\<rparr>"

definition sampleState :: "Goal list \<Rightarrow> Task list \<Rightarrow> AppState" where
  "sampleState gs ts = \<lparr>goals = gs, tasks = ts, scheduledBlocks = [], capacity = None\<rparr>"

definition pendingBlock ::
  "string \<Rightarrow> string \<Rightarrow> string \<Rightarrow> string \<Rightarrow> int \<Rightarrow> EnergyType \<Rightarrow> int \<Rightarrow> ScheduledBlock" where
  "pendingBlock tid d s e buf en so =
     \<lparr>block_id = ''blk'', taskId = tid, date = d, startTime = s, endTime = e,
      bufferMinutes = buf, energyType = en, status = Pending, skipReason = None,
      sortOrder = so\<rparr>"

text \<open>A fixed event of 60 minutes at nine o'clock, on the first day of the window.\<close>

definition fixedHour :: Task where
  "fixedHour = (sampleTask ''t1'' FixedEvent 60 Deep)\<lparr>dueTime := Some ''09:00''\<rparr>"

text \<open>A fixed event at eleven o'clock and a deadline task due on the same Monday.\<close>

definition fixedEleven :: Task where
  "fixedEleven = (sampleTask ''t1'' FixedEvent 60 Deep)\<lparr>dueTime := Some ''11:00''\<rparr>"

definition deadlineMonday :: Task where
  "deadlineMonday = (sampleTask ''t2'' DeadlineTask 60 Deep)\<lparr>deadline := Some ''2025-02-24''\<rparr>"

text \<open>A fixed event of 100 minutes under a buffer of 28 percent.\<close>

definition fixedHundred :: Task where
  "fixedHundred = (sampleTask ''t1'' FixedEvent 100 Deep)\<lparr>dueTime := Some ''09:00''\<rparr>"

definition bufferState :: AppState where
  "bufferState =
     \<lparr>goals = [], tasks = [fixedHundred], scheduledBlocks = [],
      capacity = Some (DEFAULT_CAPACITY\<lparr>bufferPercent := 28\<rparr>)\<rparr>"

text \<open>
  A store with the arrays of a state, whose schedule holds a block of the week before, and
  the references of the state object.
\<close>

definition sampleHeap :: heap where
  "sampleHeap =
     [GoalArr [], TaskArr [fixedHour],
      BlockArr [pendingBlock ''t0'' ''2025-02-17'' ''09:00'' ''10:30'' 15 Deep 1], CapObj None]"

definition sampleRefs :: StateRef where
  "sampleRefs = \<lparr>goalsRef = 0, tasksRef = 1, scheduledBlocksRef = 2, capacityRef = 3\<rparr>"

text \<open>A fixed event of eight hours, and a deadline task of one hour due on the Tuesday.\<close>

definition fixedEightHours :: Task where
  "fixedEightHours = (sampleTask ''t1'' FixedEvent 480 Deep)\<lparr>dueTime := Some ''09:00''\<rparr>"

definition deadlineHour :: Task where
  "deadlineHour = (sampleTask ''t2'' DeadlineTask 60 Deep)\<lparr>deadline := Some ''2025-02-25''\<rparr>"

text \<open>
  A second deadline task due on the same Tuesday, and a fixed event of half an hour that
  starts while \<open>fixedHour\<close> is running.
\<close>

definition deadlineSecond :: Task where
  "deadlineSecond = (sampleTask ''t4'' DeadlineTask 60 Light)\<lparr>deadline := Some ''2025-02-25''\<rparr>"

definition fixedHalfHour :: Task where
  "fixedHalfHour = (sampleTask ''t3'' FixedEvent 30 Light)\<lparr>dueTime := Some ''09:30''\<rparr>"

text \<open>
  The week of 22 September 2025 as a runtime in the zone Pacific/Auckland counts it:
  \<open>new Date('2025-09-22')\<close> is noon there, the clock goes forward on the 28th, and noon of
  the 28th is 23:00 of the 27th in UTC, so the seventh date is the sixth once more. And a
  second micro task.
\<close>

definition clockChangeCalendar :: calendar where
  "clockChangeCalendar weekStart =
     (if weekStart = ''2025-09-22''
      then Some [''2025-09-22'', ''2025-09-23'', ''2025-09-24'', ''2025-09-25'',
                 ''2025-09-26'', ''2025-09-27'', ''2025-09-27'']
      else None)"

definition microEight :: Task where
  "microEight = sampleTask ''m2'' MicroTask 8 Light"

text \<open>
  A micro task of ten minutes, a state whose work window ends ten minutes after midnight,
  and a goal of two sessions a week with its single task.
\<close>

definition microTen :: Task where
  "microTen = sampleTask ''m1'' MicroTask 10 Deep"

definition earlyEndState :: AppState where
  "earlyEndState =
     (sampleState [] [microTen])\<lparr>capacity := Some (DEFAULT_CAPACITY\<lparr>workEnd := ''00:10''\<rparr>)\<rparr>"

definition twoSessions :: Goal where
  "twoSessions =
     \<lparr>goal_id = ''g1'', weeklyQuotaHours = None, weeklyQuotaSessions = Some 2,
      priorityTier = 1, active = True\<rparr>"

definition goalHour :: Task where
  "goalHour = (sampleTask ''t5'' GoalTask 60 Deep)\<lparr>goalId := Some ''g1''\<rparr>"

section \<open>Rounding to binary64\<close>

lemma binaryExponent_bounds:
  assumes "0 < x"
  shows "2 powi binaryExponent x \<le> x" and "x < 2 powi (binaryExponent x + 1)"
proof -
  have "2 powi binaryExponent x \<le> x \<and> x < 2 powi (binaryExponent x + 1)"
  proof (cases "1 \<le> x")
    case True
    let ?n = "\<lfloor>x\<rfloor>"
    from True have n: "0 < ?n" by simp
    note b = bitlen_bounds [OF n]
    have bl: "1 \<le> bitlen ?n"
      using n by (simp add: bitlen_def floorlog_def)
    have e: "binaryExponent x = bitlen ?n - 1"
      using True by (simp add: binaryExponent_def)
    have "(2::rat) powi (bitlen ?n - 1) = of_int (2 ^ nat (bitlen ?n - 1))"
      using bl by (simp add: power_int_def)
    also have "\<dots> \<le> of_int ?n"
      using b by (simp only: of_int_le_iff)
    also have "\<dots> \<le> x" by simp
    finally have lo: "2 powi binaryExponent x \<le> x" by (simp add: e)
    have "x < of_int (?n + 1)" by linarith
    also have "\<dots> \<le> of_int (2 ^ nat (bitlen ?n))"
      using b by (simp only: of_int_le_iff) simp
    also have "\<dots> = (2::rat) powi (bitlen ?n)"
      using bl by (simp add: power_int_def)
    finally have "x < 2 powi (binaryExponent x + 1)" by (simp add: e)
    with lo show ?thesis by simp
  next
    case False
    let ?m = "\<lceil>1 / x\<rceil> - 1"
    from False assms have inv: "1 < 1 / x" by simp
    then have "1 < \<lceil>1 / x\<rceil>" by (simp add: less_ceiling_iff)
    then have m: "0 < ?m" by simp
    note b = bitlen_bounds [OF m]
    have bl: "1 \<le> bitlen ?m"
      using m by (simp add: bitlen_def floorlog_def)
    have e: "binaryExponent x = - bitlen ?m"
      using False by (simp add: binaryExponent_def)
    have "\<lceil>1 / x\<rceil> \<le> 2 ^ nat (bitlen ?m)"
      using b by simp
    then have "1 / x \<le> of_int (2 ^ nat (bitlen ?m))"
      by (simp only: ceiling_le_iff)
    also have "\<dots> = (2::rat) powi (bitlen ?m)"
      using bl by (simp add: power_int_def)
    finally have "1 / x \<le> 2 powi bitlen ?m" .
    then have "1 \<le> 2 powi bitlen ?m * x"
      using assms by (simp add: field_simps)
    then have lo: "2 powi binaryExponent x \<le> x"
      by (simp add: e power_int_minus field_simps)
    have "2 ^ nat (bitlen ?m - 1) < \<lceil>1 / x\<rceil>"
      using b by simp
    then have "of_int (2 ^ nat (bitlen ?m - 1)) < 1 / x"
      by (simp only: less_ceiling_iff)
    moreover have "of_int (2 ^ nat (bitlen ?m - 1)) = (2::rat) powi (bitlen ?m - 1)"
      using bl by (simp add: power_int_def)
    ultimately have "2 powi (bitlen ?m - 1) < 1 / x" by simp
    then have "x * 2 powi (bitlen ?m - 1) < 1"
      using assms by (simp add: field_simps)
    moreover have "(2::rat) powi (binaryExponent x + 1) = inverse (2 powi (bitlen ?m - 1))"
      by (simp add: e flip: power_int_minus)
    moreover have "(0::rat) < 2 powi (bitlen ?m - 1)"
      by (simp add: zero_less_power_int)
    ultimately have "x < 2 powi (binaryExponent x + 1)"
      by (simp add: pos_less_divide_eq inverse_eq_divide)
    with lo show ?thesis by simp
  qed
  then show "2 powi binaryExponent x \<le> x" and "x < 2 powi (binaryExponent x + 1)" by simp_all
qed

lemma binaryExponent_unique:
  assumes "2 powi e \<le> x" and "x < 2 powi (e + 1)"
  shows "binaryExponent x = e"
proof -
  have "(0::rat) < 2 powi e" by (simp add: zero_less_power_int)
  with assms(1) have x: "0 < x" by linarith
  note b = binaryExponent_bounds [OF x]
  have "(2::rat) powi e < 2 powi (binaryExponent x + 1)"
    using assms(1) b(2) by linarith
  then have "e < binaryExponent x + 1"
    using power_int_increasing [of "binaryExponent x + 1" e "2::rat"] by (cases "e < binaryExponent x + 1") auto
  moreover have "(2::rat) powi binaryExponent x < 2 powi (e + 1)"
    using assms(2) b(1) by linarith
  then have "binaryExponent x < e + 1"
    using power_int_increasing [of "e + 1" "binaryExponent x" "2::rat"] by (cases "binaryExponent x < e + 1") auto
  ultimately show ?thesis by simp
qed

lemma roundHalfEven_bounds: "\<lfloor>z\<rfloor> \<le> roundHalfEven z" "roundHalfEven z \<le> \<lceil>z\<rceil>"
proof -
  show "\<lfloor>z\<rfloor> \<le> roundHalfEven z" by (simp add: roundHalfEven_def Let_def)
  have "\<lfloor>z\<rfloor> + 1 \<le> \<lceil>z\<rceil>" if "z \<noteq> of_int \<lfloor>z\<rfloor>"
    using that by (metis ceiling_altdef order_refl)
  moreover have "z - of_int \<lfloor>z\<rfloor> \<noteq> 0" if "1 / 2 \<le> z - of_int \<lfloor>z\<rfloor>"
    using that by auto
  ultimately show "roundHalfEven z \<le> \<lceil>z\<rceil>"
    by (auto simp: roundHalfEven_def Let_def ceiling_altdef)
qed

lemma roundHalfEven_of_int: "roundHalfEven (of_int n) = n"
  by (simp add: roundHalfEven_def)

lemma roundHalfEven_nonneg: "0 \<le> z \<Longrightarrow> 0 \<le> roundHalfEven z"
  using roundHalfEven_bounds(1) [of z] by (simp add: order_trans [of 0 "\<lfloor>z\<rfloor>"])

lemma binary64_pos:
  "0 < x \<Longrightarrow> binary64 x = of_int (roundHalfEven (x * 2 powi (52 - binaryExponent x))) * 2 powi (binaryExponent x - 52)"
  by (simp add: binary64_def Let_def)

lemma binary64_nonneg: "0 \<le> x \<Longrightarrow> 0 \<le> binary64 x"
proof (cases "x = 0")
  case True
  then show ?thesis by (simp add: binary64_def)
next
  case False
  assume "0 \<le> x"
  with False have x: "0 < x" by simp
  have "0 \<le> x * 2 powi (52 - binaryExponent x)"
    using x by (simp add: zero_less_power_int less_imp_le)
  then have "0 \<le> roundHalfEven (x * 2 powi (52 - binaryExponent x))" by (rule roundHalfEven_nonneg)
  then show ?thesis
    by (simp add: binary64_pos [OF x] zero_less_power_int less_imp_le)
qed

lemma binary64_nonpos: "x \<le> 0 \<Longrightarrow> binary64 x \<le> 0"
proof (cases "x = 0")
  case True
  then show ?thesis by (simp add: binary64_def)
next
  case False
  assume "x \<le> 0"
  with False have x: "x < 0" by simp
  have "0 \<le> \<bar>x\<bar> * 2 powi (52 - binaryExponent \<bar>x\<bar>)"
    by (simp add: zero_less_power_int less_imp_le)
  then have "0 \<le> roundHalfEven (\<bar>x\<bar> * 2 powi (52 - binaryExponent \<bar>x\<bar>))" by (rule roundHalfEven_nonneg)
  then have "0 \<le> of_int (roundHalfEven (\<bar>x\<bar> * 2 powi (52 - binaryExponent \<bar>x\<bar>))) * (2::rat) powi (binaryExponent \<bar>x\<bar> - 52)"
    by (simp add: zero_less_power_int less_imp_le)
  with x show ?thesis
    by (simp add: binary64_def Let_def mult_le_0_iff)
qed

lemma power_int_le_exp:
  assumes "(2::rat) powi a \<le> 2 powi b"
  shows "a \<le> b"
proof (rule ccontr)
  assume "\<not> a \<le> b"
  then have "b < a" by simp
  then have "(2::rat) powi b < 2 powi a"
    by (rule power_int_strict_increasing) simp
  with assms show False by simp
qed

lemma power_int_less_exp:
  assumes "(2::rat) powi a < 2 powi b"
  shows "a < b"
proof (rule ccontr)
  assume "\<not> a < b"
  then have "b \<le> a" by simp
  then have "(2::rat) powi b \<le> 2 powi a"
    by (rule power_int_increasing) simp
  with assms show False by simp
qed

text \<open>Rounding does not step over a whole number below \<open>2^53\<close>.\<close>

lemma binary64_le_int:
  assumes le: "y \<le> of_int n" and n0: "0 \<le> n" and n53: "n \<le> 2 ^ 53"
  shows "binary64 y \<le> of_int n"
proof (cases "0 < y")
  case False
  then have "binary64 y \<le> 0" by (simp add: binary64_nonpos)
  also have "0 \<le> (of_int n :: rat)" using n0 by simp
  finally show ?thesis .
next
  case True
  let ?e = "binaryExponent y"
  let ?s = "(2::rat) powi (52 - ?e)"
  note b = binaryExponent_bounds [OF True]
  have s: "0 < ?s" by (simp add: zero_less_power_int)
  have "(2::rat) powi ?e \<le> of_int n" using b(1) le by linarith
  also have "(of_int n :: rat) \<le> of_int (2 ^ 53)" using n53 by (simp only: of_int_le_iff)
  also have "(of_int (2 ^ 53) :: rat) = 2 powi 53" by simp
  finally have e53: "?e \<le> 53" by (rule power_int_le_exp)
  have "\<exists>N. of_int n * ?s = (of_int N :: rat)"
  proof (cases "?e \<le> 52")
    case True
    then have "?s = of_int (2 ^ nat (52 - ?e))"
      by (simp add: power_int_def)
    then have "of_int n * ?s = (of_int (n * 2 ^ nat (52 - ?e)) :: rat)"
      by simp
    then show ?thesis ..
  next
    case False
    with e53 have e: "?e = 53" by simp
    have "(2::rat) powi 53 \<le> of_int n" using b(1) le e by simp
    then have "(of_int (2 ^ 53) :: rat) \<le> of_int n" by simp
    then have "2 ^ 53 \<le> n" by (simp only: of_int_le_iff)
    with n53 have "n = 2 ^ 53" by simp
    then have "of_int n * ?s = (of_int (2 ^ 52) :: rat)"
      by (simp add: e)
    then show ?thesis ..
  qed
  then obtain N where N: "of_int n * ?s = (of_int N :: rat)" ..
  have "y * ?s \<le> of_int n * ?s"
    using le s by (simp add: mult_right_mono)
  then have "y * ?s \<le> of_int N" by (simp add: N)
  then have "\<lceil>y * ?s\<rceil> \<le> N" by (simp add: ceiling_le_iff)
  with roundHalfEven_bounds(2) [of "y * ?s"] have "roundHalfEven (y * ?s) \<le> N" by simp
  then have "(of_int (roundHalfEven (y * ?s)) :: rat) \<le> of_int N" by (simp only: of_int_le_iff)
  then have "of_int (roundHalfEven (y * ?s)) * (2::rat) powi (?e - 52) \<le> of_int N * 2 powi (?e - 52)"
    by (simp add: mult_right_mono zero_less_power_int less_imp_le)
  also have "of_int N * (2::rat) powi (?e - 52) = of_int n * (?s * 2 powi (?e - 52))"
    by (simp add: N [symmetric])
  also have "?s * (2::rat) powi (?e - 52) = 1"
    by (simp flip: power_int_add)
  finally show ?thesis
    by (simp add: binary64_pos [OF True])
qed

text \<open>A number with a significand below \<open>2^53\<close> is its own rounding.\<close>

lemma binary64_exact_pos:
  assumes m: "0 < m" "m < 2 ^ 53"
  shows "binary64 (of_int m * 2 powi k) = of_int m * 2 powi k"
proof -
  let ?x = "(of_int m :: rat) * 2 powi k"
  have x: "0 < ?x" using m(1) by (simp add: zero_less_power_int)
  let ?e = "binaryExponent ?x"
  note b = binaryExponent_bounds [OF x]
  have "(of_int m :: rat) < of_int (2 ^ 53)" using m(2) by (simp only: of_int_less_iff)
  then have "?x < 2 powi 53 * 2 powi k"
    by (simp add: zero_less_power_int)
  also have "\<dots> = (2::rat) powi (53 + k)" by (simp add: power_int_add)
  finally have "(2::rat) powi ?e < 2 powi (53 + k)" using b(1) by linarith
  then have "?e < 53 + k" by (rule power_int_less_exp)
  then have j: "0 \<le> k + 52 - ?e" by simp
  have "?x * 2 powi (52 - ?e) = of_int m * (2 powi k * 2 powi (52 - ?e))"
    by simp
  also have "(2::rat) powi k * 2 powi (52 - ?e) = 2 powi (k + 52 - ?e)"
    by (simp add: power_int_add [symmetric] algebra_simps)
  also have "\<dots> = of_int (2 ^ nat (k + 52 - ?e))"
    using j by (simp add: power_int_def)
  finally have i: "?x * 2 powi (52 - ?e) = of_int (m * 2 ^ nat (k + 52 - ?e))"
    by simp
  have "binary64 ?x = ?x * 2 powi (52 - ?e) * 2 powi (?e - 52)"
    by (simp only: binary64_pos [OF x] i roundHalfEven_of_int)
  also have "\<dots> = ?x * (2 powi (52 - ?e) * 2 powi (?e - 52))"
    by simp
  also have "(2::rat) powi (52 - ?e) * 2 powi (?e - 52) = 1"
    by (simp flip: power_int_add)
  finally show ?thesis by simp
qed

lemma binary64_numeral: "numeral w < (2::int) ^ 53 \<Longrightarrow> binary64 (numeral w) = numeral w"
  using binary64_exact_pos [of "numeral w" 0] by simp

lemma binary64_numeral_half: "numeral w < (2::int) ^ 53 \<Longrightarrow> binary64 (numeral w / 2) = numeral w / 2"
  using binary64_exact_pos [of "numeral w" "- 1"] by (simp add: power_int_minus field_simps)

lemma binary64_quarter: "binary64 (1 / 4) = 1 / 4"
  using binary64_exact_pos [of 1 "- 2"] by (simp add: power_int_minus)

lemma binary64_minus: "binary64 (- x) = - binary64 x"
  by (simp add: binary64_def Let_def)

lemma binary64_zero: "binary64 0 = 0"
  by (simp add: binary64_def)

lemma binary64_one: "binary64 1 = 1"
  using binary64_exact_pos [of 1 0] by simp

lemmas float_eval = fmul_def fdiv_def fsub_def binary64_numeral binary64_numeral_half
  binary64_quarter binary64_zero binary64_one binary64_minus

text \<open>Rounding a number whose binary exponent is known.\<close>

lemma binary64_at:
  assumes "2 powi e \<le> x" and "x < 2 powi (e + 1)"
  shows "binary64 x = of_int (roundHalfEven (x * 2 powi (52 - e))) * 2 powi (e - 52)"
proof -
  have "(0::rat) < 2 powi e" by (simp add: zero_less_power_int)
  with assms(1) have x: "0 < x" by linarith
  show ?thesis
    by (simp only: binary64_pos [OF x] binaryExponent_unique [OF assms])
qed

section \<open>Decimal text and clock strings\<close>

lemma digit_char_table: "\<forall>k\<in>set [0..<10]. digit_char k = ''0123456789'' ! k"
  by code_simp

lemma digit_char_nth: "n < 10 \<Longrightarrow> digit_char n = ''0123456789'' ! n"
  using digit_char_table by simp

lemma digit_val_digit_char: "n < 10 \<Longrightarrow> digit_val (digit_char n) = n"
  by (simp add: digit_val_def digit_char_def)

lemma is_digit_digit_char: "n < 10 \<Longrightarrow> is_digit (digit_char n)"
  by (simp add: is_digit_def digit_char_def)

lemma is_digit_not_colon: "is_digit c \<Longrightarrow> c \<noteq> CHR '':''"
  by (auto simp: is_digit_def)

lemma is_digit_not_sign: "is_digit c \<Longrightarrow> c \<noteq> CHR ''-'' \<and> c \<noteq> CHR ''+''"
  by (auto simp: is_digit_def)

lemma nat_of_digits_snoc: "nat_of_digits (s @ [c]) = 10 * nat_of_digits s + digit_val c"
  by (simp add: nat_of_digits_def)

lemma string_of_nat_digits: "list_all is_digit (string_of_nat n) \<and> string_of_nat n \<noteq> []"
proof (induction n rule: string_of_nat.induct)
  case (1 n)
  show ?case
  proof (cases "n < 10")
    case True
    then show ?thesis
      by (subst (1 2) string_of_nat.simps) (simp add: is_digit_digit_char)
  next
    case False
    with 1 show ?thesis
      by (subst (1 2) string_of_nat.simps) (simp add: is_digit_digit_char)
  qed
qed

lemma nat_of_digits_string_of_nat: "nat_of_digits (string_of_nat n) = n"
proof (induction n rule: string_of_nat.induct)
  case (1 n)
  show ?case
  proof (cases "n < 10")
    case True
    then show ?thesis
      by (subst string_of_nat.simps) (simp add: nat_of_digits_def digit_val_digit_char)
  next
    case False
    with 1 have "nat_of_digits (string_of_nat (n div 10)) = n div 10"
      by simp
    with False show ?thesis
      by (subst string_of_nat.simps) (simp add: nat_of_digits_snoc digit_val_digit_char)
  qed
qed

lemma nat_of_digits_zero_Cons: "nat_of_digits (CHR ''0'' # s) = nat_of_digits s"
  by (simp add: nat_of_digits_def digit_val_def)

lemma nat_of_digits_padStart2: "nat_of_digits (padStart2 s) = nat_of_digits s"
proof -
  have "nat_of_digits (replicate k (CHR ''0'') @ s) = nat_of_digits s" for k
    by (induction k) (simp_all add: nat_of_digits_zero_Cons)
  then show ?thesis
    by (simp add: padStart2_def)
qed

lemma is_digit_zero: "is_digit (CHR ''0'')"
  by (simp add: is_digit_def)

lemma all_digits_padStart2: "all_digits s \<Longrightarrow> all_digits (padStart2 s)"
  by (auto simp: all_digits_def padStart2_def list_all_iff is_digit_zero)

lemma js_Number_digits: "all_digits s \<Longrightarrow> js_Number s = Num (int (nat_of_digits s))"
  by (cases s) (auto simp: js_Number_def all_digits_def dest: is_digit_not_sign)

lemma js_Number_padded_nat: "js_Number (padStart2 (string_of_nat n)) = Num (int n)"
proof -
  have "all_digits (string_of_nat n)"
    using string_of_nat_digits [of n] by (simp add: all_digits_def)
  then have "all_digits (padStart2 (string_of_nat n))"
    by (rule all_digits_padStart2)
  then show ?thesis
    by (simp add: js_Number_digits nat_of_digits_padStart2 nat_of_digits_string_of_nat)
qed

lemma split_colon_no_colon: "CHR '':'' \<notin> set s \<Longrightarrow> split_colon s = [s]"
  by (induction s) auto

lemma split_colon_append:
  "CHR '':'' \<notin> set a \<Longrightarrow> split_colon (a @ CHR '':'' # b) = a # split_colon b"
  by (induction a) auto

lemma all_digits_no_colon: "all_digits s \<Longrightarrow> CHR '':'' \<notin> set s"
  by (auto simp: all_digits_def list_all_iff dest: is_digit_not_colon)

lemma timeToMinutes_digits:
  assumes "all_digits a" "all_digits b"
  shows "timeToMinutes (a @ '':'' @ b) =
           Num (int (nat_of_digits a) * 60 + int (nat_of_digits b))"
  using assms
  by (simp add: timeToMinutes_def split_colon_append split_colon_no_colon
      all_digits_no_colon js_Number_digits)

lemma time_roundtrip:
  assumes "0 \<le> n"
  shows "timeToMinutes (minutesToTime (Num n)) = Num n"
proof -
  have d: "all_digits (padStart2 (string_of_nat k))" for k
    using string_of_nat_digits [of k] by (intro all_digits_padStart2) (simp add: all_digits_def)
  have h: "string_of_int (n div 60) = string_of_nat (nat (n div 60))"
    using assms by (simp add: string_of_int_def)
  have r: "js_rem n 60 = n mod 60"
    using assms by (simp add: js_rem_def sgn_if)
  have m: "string_of_int (js_rem n 60) = string_of_nat (nat (n mod 60))"
    by (simp add: r string_of_int_def)
  have "timeToMinutes (minutesToTime (Num n)) =
          Num (int (nat (n div 60)) * 60 + int (nat (n mod 60)))"
    by (simp add: h m Let_def timeToMinutes_digits [OF d d] nat_of_digits_padStart2
        nat_of_digits_string_of_nat del: append.simps)
  also have "\<dots> = Num n"
    using assms by (simp add: pos_imp_zdiv_nonneg_iff)
  finally show ?thesis .
qed


section \<open>Every pass stays within the reachable block lists\<close>

lemma foldl_preserves:
  assumes "\<And>acc x. x \<in> set xs \<Longrightarrow> P acc \<Longrightarrow> P (f acc x)" and "P a"
  shows "P (foldl f a xs)"
  using assms by (induction xs arbitrary: a) auto

lemma js_add_Num_assoc: "js_add (js_add x (Num a)) (Num b) = js_add x (Num (a + b))"
  by (cases x) simp_all

lemma js_sub_Num_assoc: "js_sub (js_sub x (Num a)) (Num b) = js_sub x (Num (a + b))"
  by (cases x) simp_all

lemma placeFixed_shape:
  "placeFixed g cap dd blocks t = blocks \<or>
   (\<exists>d\<in>set dd. placeFixed g cap dd blocks t = blocks @ [fixedBlock (g (length blocks)) cap t d])"
  by (auto simp: placeFixed_def fixedBlock_def totalMinsOf_def bufferOf_def Let_def
      split: option.splits list.splits)

lemma placeDeadline_shape:
  "placeDeadline g cap ws we dd blocks t = blocks \<or>
   (\<exists>d\<in>set dd.
      ok (wouldExceedDailyLimits cap blocks d (totalMinsOf t + bufferOf cap t)
            (task_energyType t)) \<and>
      placeDeadline g cap ws we dd blocks t = blocks @
        [stackedBlock (g (length blocks)) (task_id t) d
           (stackStart ws we (getPlannedMinutesForDay blocks d True)
              (totalMinsOf t + bufferOf cap t))
           (totalMinsOf t + bufferOf cap t) (bufferOf cap t) (task_energyType t) 2])"
  by (auto simp: placeDeadline_def stackedBlock_def stackStart_def totalMinsOf_def
      bufferOf_def Let_def js_add_Num_assoc js_sub_Num_assoc split: option.splits)

lemma pickGoalTask_mem: "pickGoalTask goalTasks n m = Some t \<Longrightarrow> t \<in> set goalTasks"
  by (auto simp: pickGoalTask_def find_Some_iff split: option.splits list.splits)

lemma goalDay_shape:
  "goalDay g cap ws we goalTasks d (blocks, ids, n) = (blocks, ids, n) \<or>
   (\<exists>t\<in>set goalTasks.
      ok (wouldExceedDailyLimits cap blocks d (totalMinsOf t + bufferOf cap t)
            (task_energyType t)) \<and>
      goalDay g cap ws we goalTasks d (blocks, ids, n) =
        (blocks @
         [stackedBlock (g (length blocks)) (task_id t) d
            (stackStart ws we (getPlannedMinutesForDay blocks d True)
               (totalMinsOf t + bufferOf cap t))
            (totalMinsOf t + bufferOf cap t) (bufferOf cap t) (task_energyType t) 3],
         insert (task_id t) ids, n + 1))"
proof (cases "pickGoalTask goalTasks (getDeepBlockCountForDay blocks d) (maxDeepBlocksPerDay cap)")
  case None
  then show ?thesis
    by (simp add: goalDay_def Let_def)
next
  case (Some t)
  then have "t \<in> set goalTasks"
    by (rule pickGoalTask_mem)
  with Some show ?thesis
    by (auto simp: goalDay_def stackedBlock_def stackStart_def totalMinsOf_def
      bufferOf_def Let_def js_add_Num_assoc js_sub_Num_assoc)
qed

lemma placeMicro_shape:
  "placeMicro g cap ws we microTasks blocks d = blocks \<or>
   (\<exists>t\<in>set microTasks.
      \<not> js_ge (getPlannedMinutesForDay blocks d True) (fsub (fmul (maxPlannedHoursPerDay cap) 60) 20) \<and>
      \<not> list_ex (\<lambda>b. taskId b = task_id t \<and> date b = d) blocks \<and>
      placeMicro g cap ws we microTasks blocks d = blocks @
        [stackedBlock (g (length blocks)) (task_id t) d
           (stackStart ws we (getPlannedMinutesForDay blocks d True) 20) 20 5 Light 4])"
  by (auto simp: placeMicro_def stackedBlock_def stackStart_def Let_def find_Some_iff
      split: option.splits)


lemma fixedPass_built: "built cap ts dd mic (fixedPass g cap dd ts)"
  unfolding fixedPass_def
proof (rule foldl_preserves)
  show "built cap ts dd mic []"
    by (rule built_Nil)
next
  fix acc t
  assume t: "t \<in> set (filter isFixedTask ts)" and acc: "built cap ts dd mic acc"
  from placeFixed_shape [of g cap dd acc t] show "built cap ts dd mic (placeFixed g cap dd acc t)"
  proof
    assume "placeFixed g cap dd acc t = acc"
    with acc show ?thesis by simp
  next
    assume "\<exists>d\<in>set dd. placeFixed g cap dd acc t = acc @ [fixedBlock (g (length acc)) cap t d]"
    then obtain d where "d \<in> set dd"
      and "placeFixed g cap dd acc t = acc @ [fixedBlock (g (length acc)) cap t d]"
      by blast
    with t acc show ?thesis
      by (simp add: built_fixed)
  qed
qed

lemma isDeadlineTask_not_fixed: "isDeadlineTask fs t \<Longrightarrow> \<not> isFixedTask t"
  by (auto simp: isDeadlineTask_def isFixedTask_def)

lemma deadlinePass_built:
  assumes "built cap ts dd mic blocks"
  shows "built cap ts dd mic (deadlinePass g cap dd ts blocks)"
  unfolding deadlinePass_def
proof (rule foldl_preserves)
  show "built cap ts dd mic blocks"
    by (rule assms)
next
  fix acc t
  assume t: "t \<in> set (filter (isDeadlineTask (filter isFixedTask ts)) ts)"
    and acc: "built cap ts dd mic acc"
  let ?step = "placeDeadline g cap (timeToMinutes (workStart cap)) (timeToMinutes (workEnd cap))
                 dd acc t"
  from t have nf: "\<not> isFixedTask t" and mem: "t \<in> set ts"
    by (auto dest: isDeadlineTask_not_fixed)
  from placeDeadline_shape [of g cap _ _ dd acc t] show "built cap ts dd mic ?step"
  proof
    assume "?step = acc"
    with acc show ?thesis by simp
  next
    assume "\<exists>d\<in>set dd.
      ok (wouldExceedDailyLimits cap acc d (totalMinsOf t + bufferOf cap t) (task_energyType t)) \<and>
      ?step = acc @
        [stackedBlock (g (length acc)) (task_id t) d
           (stackStart (timeToMinutes (workStart cap)) (timeToMinutes (workEnd cap))
              (getPlannedMinutesForDay acc d True) (totalMinsOf t + bufferOf cap t))
           (totalMinsOf t + bufferOf cap t) (bufferOf cap t) (task_energyType t) 2]"
    then obtain d where "d \<in> set dd"
      and "ok (wouldExceedDailyLimits cap acc d (totalMinsOf t + bufferOf cap t)
                 (task_energyType t))"
      and "?step = acc @
        [stackedBlock (g (length acc)) (task_id t) d
           (stackStart (timeToMinutes (workStart cap)) (timeToMinutes (workEnd cap))
              (getPlannedMinutesForDay acc d True) (totalMinsOf t + bufferOf cap t))
           (totalMinsOf t + bufferOf cap t) (bufferOf cap t) (task_energyType t) 2]"
      by blast
    with acc mem nf show ?thesis
      by (simp add: built_priority)
  qed
qed

lemma goalDay_built:
  assumes "built cap ts dd mic blocks" and "d \<in> set dd"
    and "\<forall>t\<in>set goalTasks. t \<in> set ts \<and> \<not> isFixedTask t"
  shows "built cap ts dd mic
           (fst (goalDay g cap (timeToMinutes (workStart cap)) (timeToMinutes (workEnd cap))
                   goalTasks d (blocks, ids, n)))"
  using goalDay_shape [of g cap "timeToMinutes (workStart cap)" "timeToMinutes (workEnd cap)"
      goalTasks d blocks ids n] assms
  by (auto simp: built_priority)

lemma goalDays_built:
  assumes "built cap ts dd mic (fst st)" and "set ds \<subseteq> set dd"
    and "\<forall>t\<in>set goalTasks. t \<in> set ts \<and> \<not> isFixedTask t"
  shows "built cap ts dd mic
           (fst (goalDays g cap (timeToMinutes (workStart cap)) (timeToMinutes (workEnd cap))
                   quota goalTasks ds st))"
  using assms
proof (induction ds arbitrary: st)
  case Nil
  then show ?case by simp
next
  case (Cons d ds)
  obtain blocks ids n where st: "st = (blocks, ids, n)"
    by (cases st) auto
  show ?case
  proof (cases "n \<ge> quota")
    case True
    with Cons.prems st show ?thesis by simp
  next
    case False
    have "built cap ts dd mic
            (fst (goalDay g cap (timeToMinutes (workStart cap)) (timeToMinutes (workEnd cap))
                    goalTasks d (blocks, ids, n)))"
      using Cons.prems st by (intro goalDay_built) auto
    then show ?thesis
      using Cons.IH Cons.prems False st by simp
  qed
qed

lemma scheduleGoal_built:
  assumes "built cap ts dd mic (fst acc)"
  shows "built cap ts dd mic
           (fst (scheduleGoal g cap (timeToMinutes (workStart cap))
                   (timeToMinutes (workEnd cap)) ts dd acc goal))"
proof -
  obtain blocks ids where acc: "acc = (blocks, ids)"
    by (cases acc) auto
  let ?gts = "filter (\<lambda>t. \<not> completed t \<and> taskType t = GoalTask \<and>
                          goalId t = Some (goal_id goal) \<and> task_id t \<notin> ids) ts"
  have gt: "\<forall>t\<in>set ?gts. t \<in> set ts \<and> \<not> isFixedTask t"
    by (auto simp: isFixedTask_def)
  have "built cap ts dd mic
          (fst (goalDays g cap (timeToMinutes (workStart cap)) (timeToMinutes (workEnd cap))
                  (quotaSessions goal) ?gts dd (blocks, ids, 0)))"
    using assms acc gt by (intro goalDays_built) auto
  with assms acc show ?thesis
    by (auto simp: scheduleGoal_def Let_def split: prod.splits)
qed

lemma goalPass_built:
  assumes "built cap ts dd mic blocks"
  shows "built cap ts dd mic (goalPass g cap dd gs ts blocks)"
  unfolding goalPass_def
  by (rule foldl_preserves [where P = "\<lambda>acc. built cap ts dd mic (fst acc)"])
    (simp_all add: scheduleGoal_built assms)

lemma microPass_built:
  assumes "built cap ts dd True blocks"
  shows "built cap ts dd True (microPass g cap dd ts blocks)"
  unfolding microPass_def
proof (rule foldl_preserves)
  show "built cap ts dd True blocks"
    by (rule assms)
next
  fix acc d
  assume d: "d \<in> set dd" and acc: "built cap ts dd True acc"
  show "built cap ts dd True
          (placeMicro g cap (timeToMinutes (workStart cap)) (timeToMinutes (workEnd cap))
             (filter isMicroTask ts) acc d)"
    using placeMicro_shape [of g cap "timeToMinutes (workStart cap)"
        "timeToMinutes (workEnd cap)" "filter isMicroTask ts" acc d] d acc
    by (auto simp: built_micro)
qed

lemma priorityBlocks_built:
  "built (capacityOf st) (tasks st) dd mic (priorityBlocks g st dd)"
  by (simp add: priorityBlocks_def Let_def goalPass_built deadlinePass_built fixedPass_built)

lemma allocate_built: "built (capacityOf st) (tasks st) dd True (allocate g st dd)"
  by (simp add: allocate_def microPass_built priorityBlocks_built)

lemma set_insertBlock: "set (insertBlock x ys) = insert x (set ys)"
  by (induction ys) auto

lemma set_sortBlocks: "set (sortBlocks bs) = set bs"
  by (induction bs) (simp_all add: sortBlocks_def set_insertBlock)


section \<open>Evaluation on concrete inputs\<close>

lemma ceiling_rat_numeral:
  "\<lceil>(numeral a :: rat) / numeral b\<rceil> = - (- numeral a div numeral b)"
proof -
  have "- ((numeral a :: rat) / numeral b) = Fract (- numeral a) (numeral b)"
    by (simp add: Fract_of_int_quotient)
  then have "\<lfloor>- ((numeral a :: rat) / numeral b)\<rfloor> = - numeral a div numeral b"
    by (simp only: floor_Fract)
  then show ?thesis
    by (simp only: ceiling_def)
qed

lemma floor_rat_numeral: "\<lfloor>(numeral a :: rat) / numeral b\<rfloor> = numeral a div numeral b"
proof -
  have "(numeral a :: rat) / numeral b = Fract (numeral a) (numeral b)"
    by (simp add: Fract_of_int_quotient)
  then show ?thesis
    by (simp only: floor_Fract)
qed

lemma binary64_28_percent: "binary64 (7 / 25) = 1261007895663739 / 4503599627370496"
  using binary64_at [of "- 2" "7 / 25"]
  by (simp add: power_int_minus roundHalfEven_def Let_def floor_rat_numeral)

lemma binary64_28_product:
  "binary64 (31525197391593475 / 1125899906842624) = 7881299347898369 / 281474976710656"
  using binary64_at [of 4 "31525197391593475 / 1125899906842624"]
  by (simp add: power_int_minus roundHalfEven_def Let_def floor_rat_numeral)

lemma binary64_100_times: "\<lceil>binary64 (100 * binary64 (28 / 100))\<rceil> = 29"
proof -
  have "binary64 (100 * binary64 (28 / 100)) = binary64 (31525197391593475 / 1125899906842624)"
    by (simp add: binary64_28_percent)
  also have "\<dots> = 7881299347898369 / 281474976710656"
    using binary64_at [of 4 "31525197391593475 / 1125899906842624"]
    by (simp add: power_int_minus roundHalfEven_def Let_def floor_rat_numeral)
  finally have v: "binary64 (100 * binary64 (28 / 100)) = 7881299347898369 / 281474976710656" .
  show ?thesis
    by (simp only: v ceiling_rat_numeral)
qed

lemma string_of_nat_small: "n < 10 \<Longrightarrow> string_of_nat n = [digit_char n]"
  by (subst string_of_nat.simps) simp

lemma string_of_nat_large:
  "\<not> n < 10 \<Longrightarrow> string_of_nat n = string_of_nat (n div 10) @ [digit_char (n mod 10)]"
  by (subst string_of_nat.simps) simp

lemmas time_eval = digit_char_nth timeToMinutes_def js_Number_def all_digits_def is_digit_def
  nat_of_digits_def digit_val_def padStart2_def string_of_int_def string_of_nat_small
  string_of_nat_large js_rem_def

lemmas pass_eval = allocate_def priorityBlocks_def capacityOf_def fixedPass_def
  deadlinePass_def goalPass_def microPass_def placeFixed_def placeDeadline_def
  scheduleGoal_def goalDay_def placeMicro_def isFixedTask_def isDeadlineTask_def
  isMicroTask_def quotaSessions_def pickGoalTask_def truthy_def sortBlocks_def
  compareBlocks_def wouldExceedDailyLimits_def getPlannedMinutesForDay_def
  getDeepBlockCountForDay_def blockMins_def counts_on_def DEFAULT_CAPACITY_def
  BUFFER_MULTIPLIER_def Let_def ceiling_rat_numeral float_eval

lemmas sample_eval = sampleWeek_def sampleIds_def sampleTask_def sampleState_def
  pendingBlock_def fixedHour_def fixedEightHours_def deadlineHour_def deadlineSecond_def
  fixedHalfHour_def microTen_def earlyEndState_def twoSessions_def goalHour_def
  fixedHundred_def bufferState_def fixedEleven_def deadlineMonday_def microEight_def

lemma sampleCalendar_week: "sampleCalendar ''2025-02-24'' = Some sampleWeek"
  by (simp add: sampleCalendar_def)

lemma distinct_sampleWeek: "distinct sampleWeek"
  by (simp add: sampleWeek_def)

lemma run_fixedHour:
  "runWeeklyScheduler sampleIds sampleCalendar (sampleState [] [fixedHour]) ''2025-02-24'' =
     Inr [pendingBlock ''t1'' ''2025-02-24'' ''09:00'' ''10:30'' 15 Deep 1]"
  by (simp add: runWeeklyScheduler_def sampleCalendar_week)
    (simp add: pass_eval sample_eval time_eval split del: if_split)

section \<open>The capacity check\<close>

text \<open>
  Claim C5. \<open>wouldExceedDailyLimits\<close> answers \<open>ok = false\<close> exactly when the planned
  minutes of the day plus the candidate's minutes exceed \<open>maxPlannedHoursPerDay * 60\<close>, or
  the candidate is Deep and the day already holds \<open>maxDeepBlocksPerDay\<close> deep blocks or
  more. The time check comes first and the deep-block check second, the reason returned
  is that of the first check that fails, and there is no reason when the answer is
  \<open>ok = true\<close>. The function is total: it always returns the record.
\<close>

theorem wouldExceedDailyLimits_checks:
  "ok (wouldExceedDailyLimits cap blocks d n en) =
     (\<not> js_gt (js_add (getPlannedMinutesForDay blocks d True) (Num n))
          (fmul (maxPlannedHoursPerDay cap) 60) \<and>
      \<not> (en = Deep \<and> int (getDeepBlockCountForDay blocks d) \<ge> maxDeepBlocksPerDay cap))
   \<and> reason (wouldExceedDailyLimits cap blocks d n en) =
     (if js_gt (js_add (getPlannedMinutesForDay blocks d True) (Num n))
           (fmul (maxPlannedHoursPerDay cap) 60)
      then Some (DailyPlannedTimeWouldExceed (maxPlannedHoursPerDay cap))
      else if en = Deep \<and> int (getDeepBlockCountForDay blocks d) \<ge> maxDeepBlocksPerDay cap
      then Some (MaxDeepWorkBlocks (maxDeepBlocksPerDay cap))
      else None)"
  by (simp add: wouldExceedDailyLimits_def Let_def)

section \<open>Clock strings\<close>

lemma timeToMinutes_no_colon: "CHR '':'' \<notin> set t \<Longrightarrow> timeToMinutes t = NaN"
  by (simp add: timeToMinutes_def split_colon_no_colon)

lemma timeToMinutes_HHmm:
  assumes "is_HHmm t"
  shows "timeToMinutes t = Num (clockMinutes t)"
    and "0 \<le> clockMinutes t" and "clockMinutes t < 1440"
proof -
  from assms obtain h1 h2 m1 m2 where t: "t = [h1, h2] @ '':'' @ [m1, m2]"
    and d: "is_digit h1" "is_digit h2" "is_digit m1" "is_digit m2"
    and r: "nat_of_digits [h1, h2] < 24" "nat_of_digits [m1, m2] < 60"
    by (auto simp: is_HHmm_def split: list.splits)
  have "all_digits [h1, h2]" "all_digits [m1, m2]"
    using d by (simp_all add: all_digits_def)
  then have "timeToMinutes ([h1, h2] @ '':'' @ [m1, m2]) =
      Num (int (nat_of_digits [h1, h2]) * 60 + int (nat_of_digits [m1, m2]))"
    by (rule timeToMinutes_digits)
  then show "timeToMinutes t = Num (clockMinutes t)"
    by (simp add: t clockMinutes_def)
  show "0 \<le> clockMinutes t"
    by (simp add: clockMinutes_def)
  show "clockMinutes t < 1440"
    using r by (simp add: t clockMinutes_def)
qed

text \<open>
  Claim C8, as the code has it. For every well-formed \<open>HH:mm\<close> string
  \<open>timeToMinutes\<close> returns the minutes since midnight, a number from 0 to 1439. It has
  no failure path: malformed input is not rejected with a format error, it yields
  \<open>NaN\<close> (so, whenever the string has no colon) or the number computed from the first
  two fields.
\<close>

theorem timeToMinutes_well_formed:
  "(is_HHmm t \<longrightarrow>
      timeToMinutes t = Num (clockMinutes t) \<and> 0 \<le> clockMinutes t \<and> clockMinutes t < 1440) \<and>
   (CHR '':'' \<notin> set t \<longrightarrow> timeToMinutes t = NaN)"
  by (simp add: timeToMinutes_HHmm timeToMinutes_no_colon)

theorem timeToMinutes_well_formed_witness:
  "is_HHmm ''09:30'' \<and> timeToMinutes ''09:30'' = Num 570 \<and>
   CHR '':'' \<notin> set ''noon'' \<and> timeToMinutes ''noon'' = NaN"
proof -
  have a: "is_HHmm ''09:30''"
    by (simp add: is_HHmm_def is_digit_def nat_of_digits_def digit_val_def)
  have b: "CHR '':'' \<notin> set ''noon''"
    by simp
  have c: "clockMinutes ''09:30'' = 570"
    by (simp add: clockMinutes_def nat_of_digits_def digit_val_def)
  show ?thesis
    using timeToMinutes_well_formed [of "''09:30''"] timeToMinutes_well_formed [of "''noon''"]
      a b c
    by simp
qed

text \<open>
  The claim as stated fails: \<open>12:30:45\<close> is not of the form \<open>HH:mm\<close>, and the result
  is the number 750, not an error.
\<close>

theorem timeToMinutes_malformed_counterexample:
  "\<not> is_HHmm ''12:30:45'' \<and> timeToMinutes ''12:30:45'' = Num 750"
  by (simp add: is_HHmm_def time_eval)

section \<open>Status, sort order and buffer of every block\<close>

lemma built_fields:
  assumes "built cap ts dd mic blocks" and "b \<in> set blocks"
  shows "status b = Pending \<and> sortOrder b \<in> {1, 2, 3, 4} \<and>
         (if sortOrder b = 4 then bufferMinutes b = 5
          else \<exists>t\<in>set ts. task_id t = taskId b \<and> bufferMinutes b = bufferOf cap t)"
  using assms
proof (induction rule: built.induct)
  case built_Nil
  then show ?case by simp
next
  case (built_fixed blocks t d bid)
  then show ?case
    by (auto simp: fixedBlock_def Let_def)
next
  case (built_priority blocks t d so bid)
  then show ?case
    by (auto simp: stackedBlock_def)
next
  case (built_micro blocks t d bid)
  then show ?case
    by (auto simp: stackedBlock_def)
qed

text \<open>
  What every block of a result carries: status pending, a sort order among 1, 2, 3 and 4,
  and as \<open>bufferMinutes\<close> either 5, when the sort order is 4, or the value of
  \<open>Math.ceil(task.estimatedMinutes * (capacity.bufferPercent / 100))\<close>, as JavaScript
  computes it, for a task of the state that carries the block's task identifier.
\<close>

lemma run_block_fields:
  assumes "runWeeklyScheduler g cal st weekStart = Inr bs" and b: "b \<in> set bs"
  shows "status b = Pending \<and> sortOrder b \<in> {1, 2, 3, 4} \<and>
         (if sortOrder b = 4 then bufferMinutes b = 5
          else \<exists>t\<in>set (tasks st). task_id t = taskId b \<and>
                 bufferMinutes b =
                   \<lceil>fmul (estimatedMinutes t) (fdiv (bufferPercent (capacityOf st)) 100)\<rceil>)"
proof -
  from assms obtain dd where "bs = sortBlocks (allocate g st dd)"
    by (auto simp: runWeeklyScheduler_def split: option.splits)
  with b have "b \<in> set (allocate g st dd)"
    by (simp add: set_sortBlocks)
  from built_fields [OF allocate_built this] show ?thesis
    by (simp add: bufferOf_def cong: if_cong)
qed

text \<open>
  Claim C10 holds for status and sort order, and the code departs from it in the buffer.
  With \<open>bufferPercent = 28\<close> a fixed event estimated at 100 minutes gets
  \<open>bufferMinutes = 29\<close>: \<open>28 / 100\<close> is not a binary64 number, the nearest one lies
  above it, and the product with 100 rounds to a number above 28, which \<open>Math.ceil\<close>
  takes to 29. The claim, as the comment \<open>bufferMinutes: 25% of estimate\<close> in
  \<open>types.ts\<close> means it, gives \<open>ceil(100 \<times> 28 / 100) = 28\<close>.
\<close>

theorem buffer_of_hundred_minutes:
  "runWeeklyScheduler sampleIds sampleCalendar bufferState ''2025-02-24'' =
     Inr [pendingBlock ''t1'' ''2025-02-24'' ''09:00'' ''11:34'' 29 Deep 1] \<and>
   bufferMinutes (pendingBlock ''t1'' ''2025-02-24'' ''09:00'' ''11:34'' 29 Deep 1) = 29 \<and>
   \<lceil>estimatedMinutes fixedHundred * bufferPercent (capacityOf bufferState) / 100\<rceil> = 28"
proof -
  have run: "runWeeklyScheduler sampleIds sampleCalendar bufferState ''2025-02-24'' =
     Inr [pendingBlock ''t1'' ''2025-02-24'' ''09:00'' ''11:34'' 29 Deep 1]"
    by (simp add: runWeeklyScheduler_def sampleCalendar_week)
      (simp add: pass_eval sample_eval time_eval binary64_28_percent binary64_28_product
        split del: if_split)
  have "\<lceil>estimatedMinutes fixedHundred * bufferPercent (capacityOf bufferState) / 100\<rceil> = 28"
    by (simp add: bufferState_def fixedHundred_def sampleTask_def capacityOf_def
        DEFAULT_CAPACITY_def)
  with run show ?thesis
    by (simp add: pendingBlock_def)
qed

section \<open>Determinism up to identifiers\<close>

lemma foldl_commute:
  assumes "\<And>acc x. h (f acc x) = f' (h acc) x"
  shows "h (foldl f a xs) = foldl f' (h a) xs"
  using assms by (induction xs arbitrary: a) simp_all

lemma filter_map_eraseId:
  assumes "\<And>b. P (eraseId b) = P b"
  shows "filter P (map eraseId bs) = map eraseId (filter P bs)"
  using assms by (induction bs) simp_all

lemma counts_on_eraseId: "counts_on d (eraseId b) = counts_on d b"
  by (simp add: counts_on_def eraseId_def)

lemma blockMins_eraseId: "blockMins (eraseId b) = blockMins b"
  by (simp add: blockMins_def eraseId_def)

lemma getPlanned_eraseId:
  "getPlannedMinutesForDay (map eraseId bs) d i = getPlannedMinutesForDay bs d i"
proof -
  have "foldl (\<lambda>sum b. js_add (js_add sum (blockMins b)) (Num (if i then bufferMinutes b else 0)))
          a (map eraseId xs) =
        foldl (\<lambda>sum b. js_add (js_add sum (blockMins b)) (Num (if i then bufferMinutes b else 0)))
          a xs" for a xs
    by (induction xs arbitrary: a) (simp_all add: blockMins_eraseId, simp add: eraseId_def)
  then show ?thesis
    by (simp add: getPlannedMinutesForDay_def filter_map_eraseId counts_on_eraseId)
qed

lemma getDeep_eraseId:
  "getDeepBlockCountForDay (map eraseId bs) d = getDeepBlockCountForDay bs d"
  by (simp add: getDeepBlockCountForDay_def filter_map_eraseId eraseId_def)

lemma wouldExceed_eraseId:
  "wouldExceedDailyLimits cap (map eraseId bs) d n en = wouldExceedDailyLimits cap bs d n en"
  by (simp add: wouldExceedDailyLimits_def getPlanned_eraseId getDeep_eraseId)

lemma placeFixed_eraseId:
  "map eraseId (placeFixed g cap dd bs t) = placeFixed (\<lambda>n. []) cap dd (map eraseId bs) t"
  by (simp add: placeFixed_def Let_def eraseId_def split: option.splits list.splits)

lemma placeDeadline_eraseId:
  "map eraseId (placeDeadline g cap ws we dd bs t) =
     placeDeadline (\<lambda>n. []) cap ws we dd (map eraseId bs) t"
  by (simp add: placeDeadline_def Let_def wouldExceed_eraseId getPlanned_eraseId
      split: option.splits)
    (simp add: eraseId_def)


lemma goalDay_eraseId:
  "eraseState (goalDay g cap ws we goalTasks d st) =
     goalDay (\<lambda>n. []) cap ws we goalTasks d (eraseState st)"
proof -
  obtain blocks ids n where st: "st = (blocks, ids, n)"
    by (cases st) auto
  show ?thesis
    unfolding st
    by (simp add: goalDay_def eraseState_def Let_def wouldExceed_eraseId getPlanned_eraseId
        getDeep_eraseId split: option.splits jsnum.splits)
      (simp add: eraseId_def)
qed

lemma goalDays_eraseId:
  "eraseState (goalDays g cap ws we quota goalTasks ds st) =
     goalDays (\<lambda>n. []) cap ws we quota goalTasks ds (eraseState st)"
proof (induction ds arbitrary: st)
  case Nil
  then show ?case by simp
next
  case (Cons d ds)
  have "snd (snd (eraseState st)) = snd (snd st)"
    by (cases st) (simp add: eraseState_def)
  then show ?case
    by (simp add: Cons.IH goalDay_eraseId)
qed

lemma scheduleGoal_eraseId:
  "map_prod (map eraseId) id (scheduleGoal g cap ws we ts dd acc goal) =
     scheduleGoal (\<lambda>n. []) cap ws we ts dd (map_prod (map eraseId) id acc) goal"
proof -
  obtain blocks ids where acc: "acc = (blocks, ids)"
    by (cases acc) auto
  let ?gts = "filter (\<lambda>t. \<not> completed t \<and> taskType t = GoalTask \<and>
                          goalId t = Some (goal_id goal) \<and> task_id t \<notin> ids) ts"
  obtain bs' ids' n' where r:
    "goalDays g cap ws we (quotaSessions goal) ?gts dd (blocks, ids, 0) = (bs', ids', n')"
    by (cases "goalDays g cap ws we (quotaSessions goal) ?gts dd (blocks, ids, 0)") auto
  have "eraseState (goalDays g cap ws we (quotaSessions goal) ?gts dd (blocks, ids, 0)) =
        goalDays (\<lambda>n. []) cap ws we (quotaSessions goal) ?gts dd (map eraseId blocks, ids, 0)"
    using goalDays_eraseId [of g cap ws we "quotaSessions goal" ?gts dd "(blocks, ids, 0)"]
    by (simp add: eraseState_def)
  then have "goalDays (\<lambda>n. []) cap ws we (quotaSessions goal) ?gts dd
               (map eraseId blocks, ids, 0) = (map eraseId bs', ids', n')"
    by (simp add: r eraseState_def)
  then show ?thesis
    unfolding acc
    by (simp add: scheduleGoal_def Let_def r)
qed

lemma goalPass_eraseId:
  "map eraseId (goalPass g cap dd gs ts bs) = goalPass (\<lambda>n. []) cap dd gs ts (map eraseId bs)"
proof -
  have ids: "set (map taskId (map eraseId bs)) = set (map taskId bs)"
    by (simp add: eraseId_def image_image)
  have "map_prod (map eraseId) id
          (foldl (scheduleGoal g cap (timeToMinutes (workStart cap))
                    (timeToMinutes (workEnd cap)) ts dd)
             (bs, set (map taskId bs)) (sort_key priorityTier (filter active gs))) =
        foldl (scheduleGoal (\<lambda>n. []) cap (timeToMinutes (workStart cap))
                 (timeToMinutes (workEnd cap)) ts dd)
          (map_prod (map eraseId) id (bs, set (map taskId bs)))
          (sort_key priorityTier (filter active gs))"
    by (rule foldl_commute) (rule scheduleGoal_eraseId)
  then have "map eraseId (fst
          (foldl (scheduleGoal g cap (timeToMinutes (workStart cap))
                    (timeToMinutes (workEnd cap)) ts dd)
             (bs, set (map taskId bs)) (sort_key priorityTier (filter active gs)))) =
        fst (foldl (scheduleGoal (\<lambda>n. []) cap (timeToMinutes (workStart cap))
                 (timeToMinutes (workEnd cap)) ts dd)
          (map eraseId bs, set (map taskId bs))
          (sort_key priorityTier (filter active gs)))"
    by (metis fst_map_prod map_prod_simp id_apply)
  then show ?thesis
    by (simp only: goalPass_def ids)
qed

lemma placeMicro_eraseId:
  "map eraseId (placeMicro g cap ws we mts bs d) =
     placeMicro (\<lambda>n. []) cap ws we mts (map eraseId bs) d"
proof -
  have ex: "list_ex (\<lambda>b. taskId b = i \<and> date b = d) (map eraseId bs) =
            list_ex (\<lambda>b. taskId b = i \<and> date b = d) bs" for i
    by (simp add: list_ex_iff eraseId_def)
  show ?thesis
    by (simp add: placeMicro_def Let_def getPlanned_eraseId ex split: option.splits)
      (simp add: eraseId_def)
qed

lemma fixedPass_eraseId:
  "map eraseId (fixedPass g cap dd ts) = fixedPass (\<lambda>n. []) cap dd ts"
  unfolding fixedPass_def
  by (subst foldl_commute [where h = "map eraseId" and f' = "placeFixed (\<lambda>n. []) cap dd"])
    (simp_all add: placeFixed_eraseId)

lemma deadlinePass_eraseId:
  "map eraseId (deadlinePass g cap dd ts bs) = deadlinePass (\<lambda>n. []) cap dd ts (map eraseId bs)"
  unfolding deadlinePass_def
  by (rule foldl_commute) (rule placeDeadline_eraseId)

lemma microPass_eraseId:
  "map eraseId (microPass g cap dd ts bs) = microPass (\<lambda>n. []) cap dd ts (map eraseId bs)"
  unfolding microPass_def
  by (rule foldl_commute) (rule placeMicro_eraseId)

lemma allocate_eraseId: "map eraseId (allocate g st dd) = allocate (\<lambda>n. []) st dd"
  by (simp add: allocate_def priorityBlocks_def Let_def microPass_eraseId goalPass_eraseId
      deadlinePass_eraseId fixedPass_eraseId)

lemma compareBlocks_eraseId: "compareBlocks (eraseId a) (eraseId b) = compareBlocks a b"
  by (simp add: compareBlocks_def eraseId_def)

lemma insertBlock_eraseId:
  "map eraseId (insertBlock x ys) = insertBlock (eraseId x) (map eraseId ys)"
  by (induction ys) (simp_all add: compareBlocks_eraseId)

lemma sortBlocks_eraseId: "map eraseId (sortBlocks bs) = sortBlocks (map eraseId bs)"
  by (induction bs) (simp_all add: sortBlocks_def insertBlock_eraseId)

lemma blockView_eraseId: "map blockView (map eraseId bs) = map blockView bs"
  by (simp add: blockView_def eraseId_def)

lemma run_view_erased:
  "map_sum id (map blockView) (runWeeklyScheduler g cal st weekStart) =
   map_sum id (map blockView) (runWeeklyScheduler (\<lambda>n. []) cal st weekStart)"
proof (cases "cal weekStart")
  case None
  then show ?thesis
    by (simp add: runWeeklyScheduler_def)
next
  case (Some dd)
  have "map blockView (sortBlocks (allocate g st dd)) =
        map blockView (map eraseId (sortBlocks (allocate g st dd)))"
    by (simp only: blockView_eraseId)
  also have "\<dots> = map blockView (sortBlocks (allocate (\<lambda>n. []) st dd))"
    by (simp only: sortBlocks_eraseId allocate_eraseId)
  finally show ?thesis
    by (simp add: runWeeklyScheduler_def Some)
qed

text \<open>
  Claim C6. Two calls of \<open>runWeeklyScheduler\<close> on the same state and week start, whatever
  identifiers \<open>blockId\<close> hands out in each, fail alike or return block lists with the
  same sequence of (date, taskId, startTime, endTime, sortOrder).
\<close>

theorem runWeeklyScheduler_deterministic:
  "map_sum id (map blockView) (runWeeklyScheduler g1 cal st weekStart) =
   map_sum id (map blockView) (runWeeklyScheduler g2 cal st weekStart)"
  by (simp only: run_view_erased [of g1] run_view_erased [of g2])


section \<open>Clock strings of the blocks the allocator builds\<close>

lemma sound_blockMins: "sound b \<Longrightarrow> blockMins b = Num (minsOf b) \<and> 0 \<le> minsOf b"
  by (auto simp: sound_def blockMins_def minsOf_def)

lemma foldl_planned:
  assumes "\<forall>b\<in>set xs. sound b"
  shows "foldl (\<lambda>sum b. js_add (js_add sum (blockMins b)) (Num (if i then bufferMinutes b else 0)))
           (Num a) xs =
         Num (a + sum_list (map (\<lambda>b. minsOf b + (if i then bufferMinutes b else 0)) xs))"
  using assms
proof (induction xs arbitrary: a)
  case Nil
  then show ?case by simp
next
  case (Cons x xs)
  then have "blockMins x = Num (minsOf x)"
    by (simp add: sound_blockMins)
  with Cons show ?case
    by (simp add: algebra_simps)
qed

lemma getPlanned_sound:
  assumes "\<forall>b\<in>set bs. sound b"
  shows "getPlannedMinutesForDay bs d i = Num (plannedInt bs d i)"
  using foldl_planned [of "filter (counts_on d) bs" i 0] assms
  by (simp add: getPlannedMinutesForDay_def plannedInt_def)

lemma plannedInt_nonneg:
  assumes "\<forall>b\<in>set bs. sound b"
  shows "0 \<le> plannedInt bs d i"
  unfolding plannedInt_def
  by (rule sum_list_nonneg) (use assms in \<open>auto simp: sound_blockMins sound_def\<close>)


lemma plannedInt_snoc:
  "plannedInt (bs @ [b]) d i =
     plannedInt bs d i +
       (if counts_on d b then minsOf b + (if i then bufferMinutes b else 0) else 0)"
  by (simp add: plannedInt_def)

lemma stackStart_Num:
  "stackStart (Num w) (Num e) (Num p) D = Num (w + min p (e - w - D))"
  by (simp add: stackStart_def)

lemma stackedBlock_times:
  assumes "0 \<le> n" and "0 \<le> D"
  shows "timeToMinutes (startTime (stackedBlock bid tid d (Num n) D B en so)) = Num n"
    and "timeToMinutes (endTime (stackedBlock bid tid d (Num n) D B en so)) = Num (n + D)"
    and "blockMins (stackedBlock bid tid d (Num n) D B en so) = Num D"
    and "minsOf (stackedBlock bid tid d (Num n) D B en so) = D"
  using assms
  by (simp_all add: stackedBlock_def time_roundtrip blockMins_def minsOf_def
      del: minutesToTime.simps)

lemma stackedBlock_sound:
  assumes "0 \<le> n" and "0 \<le> D" and "0 \<le> B"
  shows "sound (stackedBlock bid tid d (Num n) D B en so)"
  unfolding sound_def
  using stackedBlock_times(1,2) [OF assms(1,2)] assms
  by (auto simp: stackedBlock_def)

lemma stackedBlock_fields:
  "date (stackedBlock bid tid d n D B en so) = d"
  "taskId (stackedBlock bid tid d n D B en so) = tid"
  "status (stackedBlock bid tid d n D B en so) = Pending"
  "bufferMinutes (stackedBlock bid tid d n D B en so) = B"
  "energyType (stackedBlock bid tid d n D B en so) = en"
  "sortOrder (stackedBlock bid tid d n D B en so) = so"
  "block_id (stackedBlock bid tid d n D B en so) = bid"
  by (simp_all add: stackedBlock_def)

lemma fixedBlock_fields:
  "date (fixedBlock bid cap t d) = d"
  "taskId (fixedBlock bid cap t d) = task_id t"
  "status (fixedBlock bid cap t d) = Pending"
  "bufferMinutes (fixedBlock bid cap t d) = bufferOf cap t"
  "energyType (fixedBlock bid cap t d) = task_energyType t"
  "sortOrder (fixedBlock bid cap t d) = 1"
  "block_id (fixedBlock bid cap t d) = bid"
  by (simp_all add: fixedBlock_def Let_def)

lemma ceiling_nonneg: "0 \<le> (x::rat) \<Longrightarrow> 0 \<le> \<lceil>x\<rceil>"
  by (simp add: zero_le_ceiling)

lemma fmul_nonneg: "0 \<le> a \<Longrightarrow> 0 \<le> b \<Longrightarrow> 0 \<le> fmul a b"
  by (simp add: fmul_def binary64_nonneg)

lemma fdiv_nonneg: "0 \<le> a \<Longrightarrow> 0 \<le> b \<Longrightarrow> 0 \<le> fdiv a b"
  by (simp add: fdiv_def binary64_nonneg)

lemma totalMinsOf_nonneg: "0 \<le> estimatedMinutes t \<Longrightarrow> 0 \<le> totalMinsOf t"
  unfolding totalMinsOf_def BUFFER_MULTIPLIER_def
  by (rule ceiling_nonneg) (simp add: fmul_nonneg)

lemma bufferOf_nonneg:
  "0 \<le> estimatedMinutes t \<Longrightarrow> 0 \<le> bufferPercent cap \<Longrightarrow> 0 \<le> bufferOf cap t"
  unfolding bufferOf_def
  by (rule ceiling_nonneg) (simp add: fmul_nonneg fdiv_nonneg)

lemma fixedBlock_times:
  assumes "is_HHmm (workStart cap)"
    and "case dueTime t of None \<Rightarrow> True | Some s \<Rightarrow> is_HHmm s"
    and "0 \<le> estimatedMinutes t" and "0 \<le> bufferPercent cap"
  shows "\<exists>s. timeToMinutes (startTime (fixedBlock bid cap t d)) = Num s \<and> 0 \<le> s \<and>
             timeToMinutes (endTime (fixedBlock bid cap t d)) =
               Num (s + totalMinsOf t + bufferOf cap t)"
proof -
  let ?start = "case dueTime t of Some s \<Rightarrow> s | None \<Rightarrow> workStart cap"
  have hh: "is_HHmm ?start"
    using assms(1,2) by (cases "dueTime t") simp_all
  have s: "timeToMinutes ?start = Num (clockMinutes ?start)" and nn: "0 \<le> clockMinutes ?start"
    using timeToMinutes_HHmm [OF hh] by simp_all
  have "0 \<le> clockMinutes ?start + totalMinsOf t + bufferOf cap t"
    using nn totalMinsOf_nonneg [OF assms(3)] bufferOf_nonneg [OF assms(3,4)] by simp
  then have "timeToMinutes (minutesToTime (Num (clockMinutes ?start + totalMinsOf t + bufferOf cap t))) =
             Num (clockMinutes ?start + totalMinsOf t + bufferOf cap t)"
    by (rule time_roundtrip)
  with s nn show ?thesis
    by (simp add: fixedBlock_def Let_def del: minutesToTime.simps)
qed

lemma fixedBlock_sound:
  assumes "is_HHmm (workStart cap)"
    and "case dueTime t of None \<Rightarrow> True | Some s \<Rightarrow> is_HHmm s"
    and "0 \<le> estimatedMinutes t" and "0 \<le> bufferPercent cap"
  shows "sound (fixedBlock bid cap t d)"
    and "minsOf (fixedBlock bid cap t d) = totalMinsOf t + bufferOf cap t"
proof -
  from fixedBlock_times [OF assms] obtain s where
    s: "timeToMinutes (startTime (fixedBlock bid cap t d)) = Num s" "0 \<le> s"
      "timeToMinutes (endTime (fixedBlock bid cap t d)) = Num (s + totalMinsOf t + bufferOf cap t)"
    by blast
  have nn: "0 \<le> totalMinsOf t" "0 \<le> bufferOf cap t"
    using totalMinsOf_nonneg [OF assms(3)] bufferOf_nonneg [OF assms(3,4)] by simp_all
  show "sound (fixedBlock bid cap t d)"
    unfolding sound_def using s nn by (simp add: fixedBlock_fields)
  show "minsOf (fixedBlock bid cap t d) = totalMinsOf t + bufferOf cap t"
    using s by (simp add: minsOf_def blockMins_def)
qed


section \<open>What admission to a day guarantees\<close>

lemma wellFormed_window:
  assumes "wellFormedInput cap ts"
  shows "timeToMinutes (workStart cap) = Num (clockMinutes (workStart cap))"
    and "timeToMinutes (workEnd cap) = Num (clockMinutes (workEnd cap))"
    and "0 \<le> clockMinutes (workStart cap)"
    and "fmul (maxPlannedHoursPerDay cap) 60 \<le> of_int (clockMinutes (workEnd cap))"
    and "0 \<le> bufferPercent cap"
  using assms timeToMinutes_HHmm [of "workStart cap"] timeToMinutes_HHmm [of "workEnd cap"]
  by (simp_all add: wellFormedInput_def)

lemma wellFormed_task:
  assumes "wellFormedInput cap ts" and "t \<in> set ts"
  shows "0 \<le> estimatedMinutes t"
    and "case dueTime t of None \<Rightarrow> True | Some s \<Rightarrow> is_HHmm s"
    and "0 \<le> totalMinsOf t" and "0 \<le> bufferOf cap t"
proof -
  from assms show e: "0 \<le> estimatedMinutes t"
    and "case dueTime t of None \<Rightarrow> True | Some s \<Rightarrow> is_HHmm s"
    by (auto simp: wellFormedInput_def)
  from assms have "0 \<le> bufferPercent cap"
    by (simp add: wellFormedInput_def)
  with e show "0 \<le> totalMinsOf t" and "0 \<le> bufferOf cap t"
    by (simp_all add: totalMinsOf_nonneg bufferOf_nonneg)
qed

lemma wouldExceed_ok:
  "ok (wouldExceedDailyLimits cap blocks d n en) =
     (\<not> js_gt (js_add (getPlannedMinutesForDay blocks d True) (Num n))
          (fmul (maxPlannedHoursPerDay cap) 60) \<and>
      \<not> (en = Deep \<and> int (getDeepBlockCountForDay blocks d) \<ge> maxDeepBlocksPerDay cap))"
  by (simp add: wouldExceedDailyLimits_def Let_def)

lemma admitted_priority:
  assumes wf: "wellFormedInput cap ts" and snd: "\<forall>b\<in>set bs. sound b" and t: "t \<in> set ts"
    and ok: "ok (wouldExceedDailyLimits cap bs d (totalMinsOf t + bufferOf cap t)
                   (task_energyType t))"
  defines "D \<equiv> totalMinsOf t + bufferOf cap t"
    and "p \<equiv> plannedInt bs d True"
  defines "n \<equiv> clockMinutes (workStart cap) +
                 min p (clockMinutes (workEnd cap) - clockMinutes (workStart cap) - D)"
  shows "stackStart (timeToMinutes (workStart cap)) (timeToMinutes (workEnd cap))
           (getPlannedMinutesForDay bs d True) D = Num n"
    and "0 \<le> n" and "0 \<le> D" and "0 \<le> bufferOf cap t" and "bufferOf cap t \<le> D"
    and "of_int (p + D) \<le> fmul (maxPlannedHoursPerDay cap) 60"
    and "task_energyType t = Deep \<Longrightarrow> int (getDeepBlockCountForDay bs d) < maxDeepBlocksPerDay cap"
proof -
  note w = wellFormed_window [OF wf]
  note tk = wellFormed_task [OF wf t]
  have pl: "getPlannedMinutesForDay bs d True = Num p"
    unfolding p_def using snd by (rule getPlanned_sound)
  have p0: "0 \<le> p"
    unfolding p_def using snd by (rule plannedInt_nonneg)
  show "stackStart (timeToMinutes (workStart cap)) (timeToMinutes (workEnd cap))
          (getPlannedMinutesForDay bs d True) D = Num n"
    by (simp add: w(1,2) pl stackStart_Num n_def)
  show D0: "0 \<le> D" and "0 \<le> bufferOf cap t" and "bufferOf cap t \<le> D"
    using tk by (simp_all add: D_def)
  from ok show le: "of_int (p + D) \<le> fmul (maxPlannedHoursPerDay cap) 60"
    by (simp add: wouldExceed_ok pl D_def)
  from le w(4) have "(of_int (p + D) :: rat) \<le> of_int (clockMinutes (workEnd cap))"
    by (rule order_trans)
  then have "p + D \<le> clockMinutes (workEnd cap)"
    by (simp only: of_int_le_iff)
  with p0 w(3) show "0 \<le> n"
    by (simp add: n_def)
  assume "task_energyType t = Deep"
  with ok show "int (getDeepBlockCountForDay bs d) < maxDeepBlocksPerDay cap"
    by (simp add: wouldExceed_ok)
qed

text \<open>
  The test of pass 4 compares with the rounded difference; rounding does not step over
  the whole number of planned minutes, so 20 minutes fit below the cap.
\<close>

lemma fsub_room:
  assumes lt: "of_int p < fsub M 20" and p0: "0 \<le> p" and M: "M \<le> of_int W" and W: "W < 1440"
  shows "of_int (p + 20) < M"
proof (rule ccontr)
  assume "\<not> of_int (p + 20) < M"
  then have le: "M - 20 \<le> of_int p"
    by simp
  let ?n = "min p 1440"
  have "M - 20 \<le> of_int (W - 20)"
    using M by simp
  also have "(of_int (W - 20) :: rat) \<le> of_int 1440"
    using W by simp
  finally have "M - 20 \<le> of_int ?n"
    using le by (simp add: min_def)
  moreover have "0 \<le> ?n" and "?n \<le> 2 ^ 53"
    using p0 by simp_all
  ultimately have "binary64 (M - 20) \<le> of_int ?n"
    by (rule binary64_le_int)
  also have "(of_int ?n :: rat) \<le> of_int p"
    by simp
  finally show False
    using lt by (simp add: fsub_def)
qed

lemma admitted_micro:
  assumes wf: "wellFormedInput cap ts" and snd: "\<forall>b\<in>set bs. sound b"
    and room: "\<not> js_ge (getPlannedMinutesForDay bs d True) (fsub (fmul (maxPlannedHoursPerDay cap) 60) 20)"
  defines "p \<equiv> plannedInt bs d True"
  defines "n \<equiv> clockMinutes (workStart cap) +
                 min p (clockMinutes (workEnd cap) - clockMinutes (workStart cap) - 20)"
  shows "stackStart (timeToMinutes (workStart cap)) (timeToMinutes (workEnd cap))
           (getPlannedMinutesForDay bs d True) 20 = Num n"
    and "0 \<le> n"
    and "of_int p < fsub (fmul (maxPlannedHoursPerDay cap) 60) 20"
    and "of_int (p + 20) < fmul (maxPlannedHoursPerDay cap) 60"
proof -
  note w = wellFormed_window [OF wf]
  have we: "clockMinutes (workEnd cap) < 1440"
    using wf by (intro timeToMinutes_HHmm(3)) (simp add: wellFormedInput_def)
  have pl: "getPlannedMinutesForDay bs d True = Num p"
    unfolding p_def using snd by (rule getPlanned_sound)
  have p0: "0 \<le> p"
    unfolding p_def using snd by (rule plannedInt_nonneg)
  show "stackStart (timeToMinutes (workStart cap)) (timeToMinutes (workEnd cap))
          (getPlannedMinutesForDay bs d True) 20 = Num n"
    by (simp add: w(1,2) pl stackStart_Num n_def)
  from room show lt: "of_int p < fsub (fmul (maxPlannedHoursPerDay cap) 60) 20"
    by (simp add: pl)
  from lt p0 w(4) we show ex: "of_int (p + 20) < fmul (maxPlannedHoursPerDay cap) 60"
    by (rule fsub_room)
  from ex w(4) have "(of_int (p + 20) :: rat) < of_int (clockMinutes (workEnd cap))"
    by (rule less_le_trans)
  then have "p + 20 < clockMinutes (workEnd cap)"
    by (simp only: of_int_less_iff)
  with p0 w(3) show "0 \<le> n"
    by (simp add: n_def)
qed

lemma built_sound:
  assumes wf: "wellFormedInput cap ts" and "built cap ts dd mic bs"
  shows "\<forall>b\<in>set bs. sound b"
  using assms(2)
proof (induction rule: built.induct)
  case built_Nil
  then show ?case by simp
next
  case (built_fixed blocks t d bid)
  have "sound (fixedBlock bid cap t d)"
    using wf built_fixed.hyps(2)
    by (intro fixedBlock_sound wellFormed_task wellFormed_window) (auto simp: wellFormedInput_def)
  with built_fixed.IH show ?case by simp
next
  case (built_priority blocks t d so bid)
  note a = admitted_priority [OF wf built_priority.IH built_priority.hyps(2,5)]
  show ?case
    using built_priority.IH a(2,3,4)
    by (simp add: a(1) stackedBlock_sound)
next
  case (built_micro blocks t d bid)
  note a = admitted_micro [OF wf built_micro.IH built_micro.hyps(5)]
  show ?case
    using built_micro.IH a(2)
    by (simp add: a(1) stackedBlock_sound)
qed


section \<open>Daily caps\<close>

lemma counts_on_Pending: "status b = Pending \<Longrightarrow> counts_on d b = (date b = d)"
  by (simp add: counts_on_def)



lemma filter_insertBlock_length:
  "length (filter P (insertBlock x ys)) = length (filter P (x # ys))"
  by (induction ys) simp_all





lemma run_deadlineHour:
  "runWeeklyScheduler sampleIds sampleCalendar (sampleState [] [deadlineHour]) ''2025-02-24'' =
     Inr [pendingBlock ''t2'' ''2025-02-25'' ''09:00'' ''10:30'' 15 Deep 2]"
  by (simp add: runWeeklyScheduler_def sampleCalendar_week)
    (simp add: pass_eval sample_eval time_eval split del: if_split)


lemma is_HHmm_samples: "is_HHmm ''09:00''" "is_HHmm ''17:00''"
  by (simp_all add: is_HHmm_def is_digit_def nat_of_digits_def digit_val_def)

lemma clockMinutes_samples: "clockMinutes ''09:00'' = 540" "clockMinutes ''17:00'' = 1020"
  by (simp_all add: clockMinutes_def nat_of_digits_def digit_val_def)

lemma capacityOf_sampleState: "capacityOf (sampleState gs ts) = DEFAULT_CAPACITY"
  by (simp add: capacityOf_def sampleState_def)

lemma tasks_sampleState: "tasks (sampleState gs ts) = ts"
  by (simp add: sampleState_def)

lemma wellFormedInput_default:
  "wellFormedInput DEFAULT_CAPACITY ts =
     (\<forall>t\<in>set ts. 0 \<le> estimatedMinutes t \<and>
                  (case dueTime t of None \<Rightarrow> True | Some s \<Rightarrow> is_HHmm s))"
  by (simp add: wellFormedInput_def DEFAULT_CAPACITY_def is_HHmm_samples clockMinutes_samples
      float_eval)





section \<open>Length of a block\<close>

text \<open>
  Claim C1, at a fixed event estimated at 60 minutes under the default capacity, whose
  buffer is 25 percent. The claim gives the block \<open>ceil(60 \<times> 1.25) = 75\<close> minutes;
  the allocator adds the buffer to the already padded estimate and returns a block from
  09:00 to 10:30, which is 90 minutes.
\<close>

theorem fixed_hour_block_length:
  "runWeeklyScheduler sampleIds sampleCalendar (sampleState [] [fixedHour]) ''2025-02-24'' =
     Inr [pendingBlock ''t1'' ''2025-02-24'' ''09:00'' ''10:30'' 15 Deep 1] \<and>
   blockMins (pendingBlock ''t1'' ''2025-02-24'' ''09:00'' ''10:30'' 15 Deep 1) = Num 90 \<and>
   \<lceil>estimatedMinutes fixedHour *
      (1 + bufferPercent (capacityOf (sampleState [] [fixedHour])) / 100)\<rceil> = 75"
  using run_fixedHour
  by (simp add: capacityOf_sampleState DEFAULT_CAPACITY_def blockMins_def pendingBlock_def
      fixedHour_def sampleTask_def time_eval)

section \<open>No overlap\<close>

lemma sound_ints:
  assumes "sound b"
  shows "timeToMinutes (startTime b) = Num (startInt b)"
    and "timeToMinutes (endTime b) = Num (endInt b)"
    and "0 \<le> startInt b" and "startInt b \<le> endInt b"
    and "minsOf b = endInt b - startInt b"
  using assms by (auto simp: sound_def startInt_def endInt_def minsOf_def blockMins_def)

lemma overlaps_sound:
  assumes "sound a" and "sound b"
  shows "overlaps a b = (max (startInt a) (startInt b) < min (endInt a) (endInt b))"
  using sound_ints(1,2) [OF assms(1)] sound_ints(1,2) [OF assms(2)]
  by (simp add: overlaps_def)

lemma stackedBlock_ints:
  assumes "0 \<le> n" and "0 \<le> D"
  shows "startInt (stackedBlock bid tid d (Num n) D B en so) = n"
    and "endInt (stackedBlock bid tid d (Num n) D B en so) = n + D"
  using stackedBlock_times(1,2) [OF assms] by (simp_all add: startInt_def endInt_def)

lemma plannedInt_snoc_mono:
  assumes "sound b"
  shows "plannedInt bs d True \<le> plannedInt (bs @ [b]) d True"
  using sound_blockMins [OF assms] assms
  by (simp add: plannedInt_snoc sound_def)

text \<open>
  The blocks of passes 2 to 4 are stacked one after the other: each ends where the day's
  planned minutes end, counted from the start of the work window. A pass-1 block adds to
  the planned minutes of its day and stands wherever its task asks.
\<close>

lemma built_stacked:
  assumes wf: "wellFormedInput cap ts"
    and fits: "fmul (maxPlannedHoursPerDay cap) 60 \<le>
               of_int (clockMinutes (workEnd cap) - clockMinutes (workStart cap))"
    and "built cap ts dd mic bs"
  shows "(\<forall>b\<in>set bs. sortOrder b \<noteq> 1 \<longrightarrow>
            endInt b \<le> clockMinutes (workStart cap) + plannedInt bs (date b) True) \<and>
         sorted_wrt (\<lambda>a b. date a = date b \<and> sortOrder a \<noteq> 1 \<and> sortOrder b \<noteq> 1 \<longrightarrow>
                           \<not> overlaps a b) bs"
  using assms(3)
proof (induction rule: built.induct)
  case built_Nil
  show ?case by simp
next
  case (built_fixed blocks t d0 bid)
  let ?w = "clockMinutes (workStart cap)"
  let ?nb = "fixedBlock bid cap t d0"
  have sn: "sound ?nb"
    using wf built_fixed.hyps(2)
    by (intro fixedBlock_sound wellFormed_task wellFormed_window) (auto simp: wellFormedInput_def)
  have old_end: "endInt b \<le> ?w + plannedInt (blocks @ [?nb]) (date b) True"
    if "b \<in> set blocks" and "sortOrder b \<noteq> 1" for b
    using that built_fixed.IH plannedInt_snoc_mono [OF sn, of blocks "date b"]
    by force
  show ?case
    using built_fixed.IH old_end
    by (simp add: sorted_wrt_append fixedBlock_fields)
next
  case (built_priority blocks t d0 so bid)
  have snd: "\<forall>b\<in>set blocks. sound b"
    using wf built_priority.hyps(1) by (rule built_sound)
  note a = admitted_priority [OF wf snd built_priority.hyps(2,5)]
  let ?w = "clockMinutes (workStart cap)"
  let ?e = "clockMinutes (workEnd cap)"
  let ?D = "totalMinsOf t + bufferOf cap t"
  let ?p = "plannedInt blocks d0 True"
  let ?nb = "stackedBlock bid (task_id t) d0
      (stackStart (timeToMinutes (workStart cap)) (timeToMinutes (workEnd cap))
         (getPlannedMinutesForDay blocks d0 True) ?D) ?D (bufferOf cap t) (task_energyType t) so"
  from a(6) fits have "(of_int (?p + ?D) :: rat) \<le> of_int (?e - ?w)"
    by (rule order_trans)
  then have "?p + ?D \<le> ?e - ?w"
    by (simp only: of_int_le_iff)
  then have n: "?w + min ?p (?e - ?w - ?D) = ?w + ?p"
    by simp
  have st: "startInt ?nb = ?w + ?p" and en: "endInt ?nb = ?w + ?p + ?D"
    using a(2,3) stackedBlock_ints [of "?w + ?p" ?D] by (simp_all add: a(1) n)
  have sn: "sound ?nb"
    using a(2,3,4) by (simp add: a(1) stackedBlock_sound)
  have m: "minsOf ?nb = ?D"
    using sound_ints(5) [OF sn] by (simp add: st en)
  have new_end: "endInt ?nb \<le> ?w + plannedInt (blocks @ [?nb]) (date ?nb) True"
    using a(4)
    by (simp add: en plannedInt_snoc counts_on_Pending stackedBlock_fields m)
  have old_end: "endInt b \<le> ?w + plannedInt (blocks @ [?nb]) (date b) True"
    if "b \<in> set blocks" and "sortOrder b \<noteq> 1" for b
    using that built_priority.IH plannedInt_snoc_mono [OF sn, of blocks "date b"]
    by force
  have apart: "date b = date ?nb \<and> sortOrder b \<noteq> 1 \<longrightarrow> \<not> overlaps b ?nb"
    if "b \<in> set blocks" for b
  proof
    assume "date b = date ?nb \<and> sortOrder b \<noteq> 1"
    then have "endInt b \<le> ?w + ?p"
      using that built_priority.IH by (auto simp: stackedBlock_fields)
    moreover have "sound b"
      using snd that by simp
    ultimately show "\<not> overlaps b ?nb"
      using sn by (simp add: overlaps_sound st)
  qed
  show ?case
    using built_priority.IH new_end old_end apart
    by (simp add: sorted_wrt_append)
next
  case (built_micro blocks t d0 bid)
  have snd: "\<forall>b\<in>set blocks. sound b"
    using wf built_micro.hyps(1) by (rule built_sound)
  note a = admitted_micro [OF wf snd built_micro.hyps(5)]
  let ?w = "clockMinutes (workStart cap)"
  let ?e = "clockMinutes (workEnd cap)"
  let ?p = "plannedInt blocks d0 True"
  let ?nb = "stackedBlock bid (task_id t) d0
      (stackStart (timeToMinutes (workStart cap)) (timeToMinutes (workEnd cap))
         (getPlannedMinutesForDay blocks d0 True) 20) 20 5 Light 4"
  from a(4) fits have "(of_int (?p + 20) :: rat) \<le> of_int (?e - ?w)"
    by linarith
  then have "?p + 20 \<le> ?e - ?w"
    by (simp only: of_int_le_iff)
  then have n: "?w + min ?p (?e - ?w - 20) = ?w + ?p"
    by simp
  have st: "startInt ?nb = ?w + ?p" and en: "endInt ?nb = ?w + ?p + 20"
    using a(2) stackedBlock_ints [of "?w + ?p" 20] by (simp_all add: a(1) n)
  have sn: "sound ?nb"
    using a(2) by (simp add: a(1) stackedBlock_sound)
  have m: "minsOf ?nb = 20"
    using sound_ints(5) [OF sn] by (simp add: st en)
  have new_end: "endInt ?nb \<le> ?w + plannedInt (blocks @ [?nb]) (date ?nb) True"
    by (simp add: en plannedInt_snoc counts_on_Pending stackedBlock_fields m)
  have old_end: "endInt b \<le> ?w + plannedInt (blocks @ [?nb]) (date b) True"
    if "b \<in> set blocks" and "sortOrder b \<noteq> 1" for b
    using that built_micro.IH plannedInt_snoc_mono [OF sn, of blocks "date b"]
    by force
  have apart: "date b = date ?nb \<and> sortOrder b \<noteq> 1 \<longrightarrow> \<not> overlaps b ?nb"
    if "b \<in> set blocks" for b
  proof
    assume "date b = date ?nb \<and> sortOrder b \<noteq> 1"
    then have "endInt b \<le> ?w + ?p"
      using that built_micro.IH by (auto simp: stackedBlock_fields)
    moreover have "sound b"
      using snd that by simp
    ultimately show "\<not> overlaps b ?nb"
      using sn by (simp add: overlaps_sound st)
  qed
  show ?case
    using built_micro.IH new_end old_end apart
    by (simp add: sorted_wrt_append)
qed

lemma overlaps_sym: "overlaps a b = overlaps b a"
  by (auto simp: overlaps_def max.commute min.commute)

lemma sorted_wrt_insertBlock:
  assumes "\<And>a b. P a b = P b a"
  shows "sorted_wrt P (insertBlock x ys) = ((\<forall>y\<in>set ys. P x y) \<and> sorted_wrt P ys)"
  using assms by (induction ys) (auto simp: set_insertBlock)

lemma sorted_wrt_sortBlocks:
  assumes "\<And>a b. P a b = P b a"
  shows "sorted_wrt P (sortBlocks bs) = sorted_wrt P bs"
proof (induction bs)
  case Nil
  show ?case by (simp add: sortBlocks_def)
next
  case (Cons x xs)
  have "sorted_wrt P (sortBlocks (x # xs)) = sorted_wrt P (insertBlock x (sortBlocks xs))"
    by (simp add: sortBlocks_def)
  also have "\<dots> = ((\<forall>y\<in>set xs. P x y) \<and> sorted_wrt P xs)"
    using Cons by (simp add: sorted_wrt_insertBlock [OF assms] set_sortBlocks)
  finally show ?case by simp
qed

lemma run_two_deadlines:
  "runWeeklyScheduler sampleIds sampleCalendar (sampleState [] [deadlineHour, deadlineSecond]) ''2025-02-24'' =
     Inr [pendingBlock ''t2'' ''2025-02-25'' ''09:00'' ''10:30'' 15 Deep 2,
          pendingBlock ''t4'' ''2025-02-25'' ''10:45'' ''12:15'' 15 Light 2]"
  by (simp add: runWeeklyScheduler_def sampleCalendar_week)
    (simp add: pass_eval sample_eval time_eval split del: if_split)

lemma run_two_fixed:
  "runWeeklyScheduler sampleIds sampleCalendar (sampleState [] [fixedHour, fixedHalfHour]) ''2025-02-24'' =
     Inr [pendingBlock ''t1'' ''2025-02-24'' ''09:00'' ''10:30'' 15 Deep 1,
          pendingBlock ''t3'' ''2025-02-24'' ''09:30'' ''10:16'' 8 Light 1]"
  by (simp add: runWeeklyScheduler_def sampleCalendar_week)
    (simp add: pass_eval sample_eval time_eval split del: if_split)

lemma run_fixed_then_deadline:
  "runWeeklyScheduler sampleIds sampleCalendar (sampleState [] [fixedEleven, deadlineMonday])
     ''2025-02-24'' =
     Inr [pendingBlock ''t1'' ''2025-02-24'' ''11:00'' ''12:30'' 15 Deep 1,
          pendingBlock ''t2'' ''2025-02-24'' ''10:45'' ''12:15'' 15 Deep 2]"
  by (simp add: runWeeklyScheduler_def sampleCalendar_week)
    (simp add: pass_eval sample_eval time_eval split del: if_split)

text \<open>
  Claim C3, as the code has it. Pass 1 places fixed events wherever they ask to be, without
  looking at the others; passes 2 to 4 start a block after the planned minutes of the day,
  counted from the start of the work window whatever the hours of the fixed events, and
  clamp a start that would run past the window. So a block of pass 1 can intersect any
  block of its date (\<open>run_fixed_then_deadline\<close>: a fixed event from 11:00 to 12:30 and
  a deadline task stacked from 10:45 to 12:15). What holds, on well-formed input whose
  daily cap fits in the work window: no two blocks of sort order 2, 3 or 4 on the same
  date have intersecting time intervals.
\<close>

theorem stacked_blocks_do_not_overlap:
  assumes "runWeeklyScheduler g cal st weekStart = Inr bs"
    and "wellFormedInput (capacityOf st) (tasks st)"
    and "fmul (maxPlannedHoursPerDay (capacityOf st)) 60 \<le>
         of_int (clockMinutes (workEnd (capacityOf st)) - clockMinutes (workStart (capacityOf st)))"
  shows "\<forall>i j. i < j \<and> j < length bs \<and> date (bs ! i) = date (bs ! j) \<and>
               sortOrder (bs ! i) \<noteq> 1 \<and> sortOrder (bs ! j) \<noteq> 1 \<longrightarrow>
               \<not> overlaps (bs ! i) (bs ! j)"
proof -
  let ?P = "\<lambda>a b. date a = date b \<and> sortOrder a \<noteq> 1 \<and> sortOrder b \<noteq> 1 \<longrightarrow> \<not> overlaps a b"
  from assms(1) obtain dd where bs: "bs = sortBlocks (allocate g st dd)"
    by (auto simp: runWeeklyScheduler_def split: option.splits)
  have "sorted_wrt ?P (allocate g st dd)"
    using built_stacked [OF assms(2,3) allocate_built] by simp
  then have "sorted_wrt ?P bs"
    unfolding bs
    by (subst sorted_wrt_sortBlocks) (auto simp: overlaps_sym)
  then show ?thesis
    by (auto simp: sorted_wrt_iff_nth_less)
qed

theorem stacked_blocks_do_not_overlap_witness:
  "runWeeklyScheduler sampleIds sampleCalendar
     (sampleState [] [fixedHour, deadlineHour, deadlineSecond]) ''2025-02-24'' =
     Inr [pendingBlock ''t1'' ''2025-02-24'' ''09:00'' ''10:30'' 15 Deep 1,
          pendingBlock ''t2'' ''2025-02-25'' ''09:00'' ''10:30'' 15 Deep 2,
          pendingBlock ''t4'' ''2025-02-25'' ''10:45'' ''12:15'' 15 Light 2] \<and>
   wellFormedInput (capacityOf (sampleState [] [fixedHour, deadlineHour, deadlineSecond]))
     [fixedHour, deadlineHour, deadlineSecond] \<and>
   fmul (maxPlannedHoursPerDay DEFAULT_CAPACITY) 60 \<le>
     of_int (clockMinutes (workEnd DEFAULT_CAPACITY) - clockMinutes (workStart DEFAULT_CAPACITY)) \<and>
   date (pendingBlock ''t2'' ''2025-02-25'' ''09:00'' ''10:30'' 15 Deep 2) =
     date (pendingBlock ''t4'' ''2025-02-25'' ''10:45'' ''12:15'' 15 Light 2) \<and>
   sortOrder (pendingBlock ''t2'' ''2025-02-25'' ''09:00'' ''10:30'' 15 Deep 2) \<noteq> 1 \<and>
   sortOrder (pendingBlock ''t4'' ''2025-02-25'' ''10:45'' ''12:15'' 15 Light 2) \<noteq> 1 \<and>
   \<not> overlaps (pendingBlock ''t2'' ''2025-02-25'' ''09:00'' ''10:30'' 15 Deep 2)
        (pendingBlock ''t4'' ''2025-02-25'' ''10:45'' ''12:15'' 15 Light 2)"
proof -
  let ?st = "sampleState [] [fixedHour, deadlineHour, deadlineSecond]"
  have run: "runWeeklyScheduler sampleIds sampleCalendar ?st ''2025-02-24'' =
     Inr [pendingBlock ''t1'' ''2025-02-24'' ''09:00'' ''10:30'' 15 Deep 1,
          pendingBlock ''t2'' ''2025-02-25'' ''09:00'' ''10:30'' 15 Deep 2,
          pendingBlock ''t4'' ''2025-02-25'' ''10:45'' ''12:15'' 15 Light 2]"
    by (simp add: runWeeklyScheduler_def sampleCalendar_week)
      (simp add: pass_eval sample_eval time_eval split del: if_split)
  have wf: "wellFormedInput (capacityOf ?st) (tasks ?st)"
    by (simp add: capacityOf_sampleState tasks_sampleState wellFormedInput_default
        fixedHour_def deadlineHour_def deadlineSecond_def sampleTask_def is_HHmm_samples)
  have fits: "fmul (maxPlannedHoursPerDay (capacityOf ?st)) 60 \<le>
      of_int (clockMinutes (workEnd (capacityOf ?st)) - clockMinutes (workStart (capacityOf ?st)))"
    by (simp add: capacityOf_sampleState DEFAULT_CAPACITY_def clockMinutes_samples float_eval)
  have d: "date (pendingBlock ''t2'' ''2025-02-25'' ''09:00'' ''10:30'' 15 Deep 2) =
           date (pendingBlock ''t4'' ''2025-02-25'' ''10:45'' ''12:15'' 15 Light 2)"
    and so: "sortOrder (pendingBlock ''t2'' ''2025-02-25'' ''09:00'' ''10:30'' 15 Deep 2) \<noteq> 1"
      "sortOrder (pendingBlock ''t4'' ''2025-02-25'' ''10:45'' ''12:15'' 15 Light 2) \<noteq> 1"
    by (simp_all add: pendingBlock_def)
  show ?thesis
    using stacked_blocks_do_not_overlap [OF run wf fits, rule_format, of 1 2]
      run wf fits d so
    by (simp add: capacityOf_sampleState tasks_sampleState)
qed

text \<open>
  The claim as stated fails: two fixed events of the same day are both placed as given, one
  from 09:00 to 10:30 and the other from 09:30 to 10:16.
\<close>

theorem fixed_events_overlap_counterexample:
  "runWeeklyScheduler sampleIds sampleCalendar (sampleState [] [fixedHour, fixedHalfHour]) ''2025-02-24'' =
     Inr [pendingBlock ''t1'' ''2025-02-24'' ''09:00'' ''10:30'' 15 Deep 1,
          pendingBlock ''t3'' ''2025-02-24'' ''09:30'' ''10:16'' 8 Light 1] \<and>
   date (pendingBlock ''t1'' ''2025-02-24'' ''09:00'' ''10:30'' 15 Deep 1) =
     date (pendingBlock ''t3'' ''2025-02-24'' ''09:30'' ''10:16'' 8 Light 1) \<and>
   status (pendingBlock ''t1'' ''2025-02-24'' ''09:00'' ''10:30'' 15 Deep 1) = Pending \<and>
   status (pendingBlock ''t3'' ''2025-02-24'' ''09:30'' ''10:16'' 8 Light 1) = Pending \<and>
   overlaps (pendingBlock ''t1'' ''2025-02-24'' ''09:00'' ''10:30'' 15 Deep 1)
     (pendingBlock ''t3'' ''2025-02-24'' ''09:30'' ''10:16'' 8 Light 1)"
  using run_two_fixed
  by (simp add: overlaps_def startInt_def endInt_def pendingBlock_def time_eval)

section \<open>Pass 4\<close>

lemma built_no_micro:
  assumes "built cap ts dd False bs"
  shows "\<forall>b\<in>set bs. sortOrder b \<noteq> 4"
  using assms
  by (induction rule: built.induct) (auto simp: fixedBlock_fields stackedBlock_fields)

lemma getPlanned_append_other:
  assumes "\<forall>m\<in>set ms. date m \<noteq> d"
  shows "getPlannedMinutesForDay (base @ ms) d i = getPlannedMinutesForDay base d i"
proof -
  have "filter (counts_on d) ms = []"
    using assms by (auto simp: filter_empty_conv counts_on_def)
  then show ?thesis
    by (simp add: getPlannedMinutesForDay_def)
qed

lemma microPass_decomp:
  assumes "distinct ds" and "\<forall>m\<in>set ms0. date m \<notin> set ds"
  shows "\<exists>ms. foldl (placeMicro g cap (timeToMinutes (workStart cap))
                       (timeToMinutes (workEnd cap)) mts) (base @ ms0) ds = base @ ms0 @ ms \<and>
              distinct (map date ms) \<and> set (map date ms) \<subseteq> set ds \<and>
              (\<forall>m\<in>set ms. microBlockOn cap mts base m)"
  using assms
proof (induction ds arbitrary: ms0)
  case Nil
  then show ?case by simp
next
  case (Cons d ds)
  let ?ws = "timeToMinutes (workStart cap)" and ?we = "timeToMinutes (workEnd cap)"
  let ?cur = "base @ ms0"
  have other: "\<forall>m\<in>set ms0. date m \<noteq> d"
    using Cons.prems(2) by auto
  have pl: "getPlannedMinutesForDay ?cur d True = getPlannedMinutesForDay base d True"
    using other by (rule getPlanned_append_other)
  from placeMicro_shape [of g cap ?ws ?we mts ?cur d]
  show ?case
  proof
    assume same: "placeMicro g cap ?ws ?we mts ?cur d = ?cur"
    have "\<forall>m\<in>set ms0. date m \<notin> set ds"
      using Cons.prems(2) by auto
    with Cons.IH [of ms0] Cons.prems(1) obtain ms where
      "foldl (placeMicro g cap ?ws ?we mts) (base @ ms0) ds = base @ ms0 @ ms"
      "distinct (map date ms)" "set (map date ms) \<subseteq> set ds"
      "\<forall>m\<in>set ms. microBlockOn cap mts base m"
      by auto
    with same show ?thesis
      by (intro exI [of _ ms]) auto
  next
    assume "\<exists>t\<in>set mts.
      \<not> js_ge (getPlannedMinutesForDay ?cur d True) (fsub (fmul (maxPlannedHoursPerDay cap) 60) 20) \<and>
      \<not> list_ex (\<lambda>b. taskId b = task_id t \<and> date b = d) ?cur \<and>
      placeMicro g cap ?ws ?we mts ?cur d = ?cur @
        [stackedBlock (g (length ?cur)) (task_id t) d
           (stackStart ?ws ?we (getPlannedMinutesForDay ?cur d True) 20) 20 5 Light 4]"
    then obtain t where t: "t \<in> set mts"
      and room: "\<not> js_ge (getPlannedMinutesForDay base d True)
                     (fsub (fmul (maxPlannedHoursPerDay cap) 60) 20)"
      and fresh: "\<not> list_ex (\<lambda>b. taskId b = task_id t \<and> date b = d) base"
      and step: "placeMicro g cap ?ws ?we mts ?cur d = ?cur @
        [stackedBlock (g (length ?cur)) (task_id t) d
           (stackStart ?ws ?we (getPlannedMinutesForDay base d True) 20) 20 5 Light 4]"
      by (auto simp: pl list_ex_iff)
    let ?nb = "stackedBlock (g (length ?cur)) (task_id t) d
           (stackStart ?ws ?we (getPlannedMinutesForDay base d True) 20) 20 5 Light 4"
    have nb: "microBlockOn cap mts base ?nb"
      unfolding microBlockOn_def using t room fresh
      by (intro bexI [of _ t] exI [of _ "g (length ?cur)"]) (simp_all add: stackedBlock_fields)
    have "\<forall>m\<in>set (ms0 @ [?nb]). date m \<notin> set ds"
      using Cons.prems by (auto simp: stackedBlock_fields)
    with Cons.IH [of "ms0 @ [?nb]"] Cons.prems(1) obtain ms where ms:
      "foldl (placeMicro g cap ?ws ?we mts) (base @ ms0 @ [?nb]) ds = base @ (ms0 @ [?nb]) @ ms"
      "distinct (map date ms)" "set (map date ms) \<subseteq> set ds"
      "\<forall>m\<in>set ms. microBlockOn cap mts base m"
      by auto
    have "d \<notin> set (map date ms)"
      using ms(3) Cons.prems(1) by auto
    with ms nb step show ?thesis
      by (intro exI [of _ "?nb # ms"]) (auto simp: stackedBlock_fields)
  qed
qed

lemma allocate_decomp:
  assumes "distinct dd"
  shows "\<exists>ms. allocate g st dd = priorityBlocks g st dd @ ms \<and> distinct (map date ms) \<and>
              set (map date ms) \<subseteq> set dd \<and>
              (\<forall>m\<in>set ms. microBlockOn (capacityOf st) (filter isMicroTask (tasks st))
                              (priorityBlocks g st dd) m)"
  using microPass_decomp [OF assms, of "[]" g "capacityOf st" "filter isMicroTask (tasks st)"
      "priorityBlocks g st dd"]
  by (simp add: allocate_def microPass_def)

lemma microBlockOn_fields:
  assumes "microBlockOn cap mts base m"
  shows "sortOrder m = 4" and "bufferMinutes m = 5" and "energyType m = Light"
    and "\<exists>t\<in>set mts. task_id t = taskId m"
    and "\<not> list_ex (\<lambda>b. taskId b = taskId m \<and> date b = date m) base"
    and "\<not> js_ge (getPlannedMinutesForDay base (date m) True)
            (fsub (fmul (maxPlannedHoursPerDay cap) 60) 20)"
proof -
  from assms obtain t bid where t: "t \<in> set mts"
    and room: "\<not> js_ge (getPlannedMinutesForDay base (date m) True)
                   (fsub (fmul (maxPlannedHoursPerDay cap) 60) 20)"
    and fresh: "\<not> list_ex (\<lambda>b. taskId b = task_id t \<and> date b = date m) base"
    and m: "m = stackedBlock bid (task_id t) (date m)
              (stackStart (timeToMinutes (workStart cap)) (timeToMinutes (workEnd cap))
                 (getPlannedMinutesForDay base (date m) True) 20) 20 5 Light 4"
    unfolding microBlockOn_def by blast
  have f: "sortOrder m = 4 \<and> bufferMinutes m = 5 \<and> energyType m = Light \<and> taskId m = task_id t"
    by (subst (1 2 3 4) m) (simp add: stackedBlock_fields)
  then show "sortOrder m = 4" and "bufferMinutes m = 5" and "energyType m = Light"
    by simp_all
  from f t show "\<exists>t\<in>set mts. task_id t = taskId m"
    by auto
  from f fresh show "\<not> list_ex (\<lambda>b. taskId b = taskId m \<and> date b = date m) base"
    by simp
  from room show "\<not> js_ge (getPlannedMinutesForDay base (date m) True)
            (fsub (fmul (maxPlannedHoursPerDay cap) 60) 20)" .
qed

lemma microBlockOn_length:
  assumes "microBlockOn cap mts base m" and wf: "wellFormedInput cap ts"
    and snd: "\<forall>b\<in>set base. sound b"
  shows "blockMins m = Num 20"
    and "js_lt (getPlannedMinutesForDay base (date m) True) (fsub (fmul (maxPlannedHoursPerDay cap) 60) 20)"
proof -
  from assms(1) obtain t bid where t: "t \<in> set mts"
    and room: "\<not> js_ge (getPlannedMinutesForDay base (date m) True)
                   (fsub (fmul (maxPlannedHoursPerDay cap) 60) 20)"
    and fresh: "\<not> list_ex (\<lambda>b. taskId b = task_id t \<and> date b = date m) base"
    and m: "m = stackedBlock bid (task_id t) (date m)
              (stackStart (timeToMinutes (workStart cap)) (timeToMinutes (workEnd cap))
                 (getPlannedMinutesForDay base (date m) True) 20) 20 5 Light 4"
    unfolding microBlockOn_def by blast
  note a = admitted_micro [OF wf snd room]
  show "blockMins m = Num 20"
    using a(2) by (subst m) (simp add: a(1) stackedBlock_times)
  show "js_lt (getPlannedMinutesForDay base (date m) True) (fsub (fmul (maxPlannedHoursPerDay cap) 60) 20)"
    using a(3) by (simp add: getPlanned_sound [OF snd])
qed

lemma filter_length_sortBlocks: "length (filter P (sortBlocks bs)) = length (filter P bs)"
  unfolding sortBlocks_def
  by (induction bs) (simp_all add: filter_insertBlock_length)

lemma filter_key_absent: "a \<notin> f ` set xs \<Longrightarrow> filter (\<lambda>x. P x \<and> f x = a) xs = []"
  by (induction xs) auto

lemma distinct_map_filter_le:
  assumes "distinct (map f xs)"
  shows "length (filter (\<lambda>x. P x \<and> f x = a) xs) \<le> 1"
  using assms
proof (induction xs)
  case Nil
  then show ?case by simp
next
  case (Cons y ys)
  show ?case
  proof (cases "f y = a")
    case True
    with Cons.prems have "a \<notin> f ` set ys"
      by auto
    then have "filter (\<lambda>x. P x \<and> f x = a) ys = []"
      by (rule filter_key_absent)
    then show ?thesis by simp
  next
    case False
    with Cons show ?thesis by simp
  qed
qed

lemma distinct_map_filter_one:
  assumes "distinct (map f xs)" and "x \<in> set xs"
  shows "length (filter (\<lambda>c. P c \<and> f c = f x) xs) = (if P x then 1 else 0)"
  using assms
proof (induction xs)
  case Nil
  then show ?case by simp
next
  case (Cons y ys)
  show ?case
  proof (cases "x = y")
    case True
    from Cons.prems(1) have "f y \<notin> f ` set ys"
      by auto
    then have "filter (\<lambda>c. P c \<and> f c = f y) ys = []"
      by (rule filter_key_absent)
    with True show ?thesis by simp
  next
    case False
    with Cons.prems have "x \<in> set ys" and "f y \<noteq> f x"
      by auto
    with Cons show ?thesis by simp
  qed
qed


lemma run_microTen:
  "runWeeklyScheduler sampleIds sampleCalendar (sampleState [] [microTen]) ''2025-02-24'' =
     Inr (map (\<lambda>d. pendingBlock ''m1'' d ''09:00'' ''09:20'' 5 Light 4) sampleWeek)"
  by (simp add: runWeeklyScheduler_def sampleCalendar_week)
    (simp add: pass_eval sample_eval time_eval split del: if_split)

lemma run_earlyEnd:
  "runWeeklyScheduler sampleIds sampleCalendar earlyEndState ''2025-02-24'' =
     Inr (map (\<lambda>d. pendingBlock ''m1'' d ''-1:-10'' ''00:10'' 5 Light 4) sampleWeek)"
  by (simp add: runWeeklyScheduler_def sampleCalendar_week)
    (simp add: pass_eval sample_eval time_eval split del: if_split)

text \<open>
  Where the window holds a date twice, pass 4 comes to that date twice and places a second
  micro task on it.
\<close>

lemma run_repeated_date:
  "runWeeklyScheduler sampleIds clockChangeCalendar (sampleState [] [microTen, microEight])
     ''2025-09-22'' =
     Inr [pendingBlock ''m1'' ''2025-09-22'' ''09:00'' ''09:20'' 5 Light 4,
          pendingBlock ''m1'' ''2025-09-23'' ''09:00'' ''09:20'' 5 Light 4,
          pendingBlock ''m1'' ''2025-09-24'' ''09:00'' ''09:20'' 5 Light 4,
          pendingBlock ''m1'' ''2025-09-25'' ''09:00'' ''09:20'' 5 Light 4,
          pendingBlock ''m1'' ''2025-09-26'' ''09:00'' ''09:20'' 5 Light 4,
          pendingBlock ''m1'' ''2025-09-27'' ''09:00'' ''09:20'' 5 Light 4,
          pendingBlock ''m2'' ''2025-09-27'' ''09:25'' ''09:45'' 5 Light 4]"
  by (simp add: runWeeklyScheduler_def clockChangeCalendar_def)
    (simp add: pass_eval sample_eval time_eval split del: if_split)

text \<open>What a block of sort order 4 carries, whatever the window.\<close>

lemma built_micro_fields:
  assumes "built cap ts dd mic bs" and "b \<in> set bs" and "sortOrder b = 4"
  shows "date b \<in> set dd \<and> bufferMinutes b = 5 \<and> energyType b = Light \<and>
         (\<exists>t\<in>set ts. task_id t = taskId b \<and> isMicroTask t)"
  using assms
  by (induction rule: built.induct) (auto simp: fixedBlock_fields stackedBlock_fields)

lemma built_micro_length:
  assumes wf: "wellFormedInput cap ts" and "built cap ts dd mic bs"
    and "b \<in> set bs" and "sortOrder b = 4"
  shows "blockMins b = Num 20"
  using assms(2-4)
proof (induction rule: built.induct)
  case built_Nil
  then show ?case by simp
next
  case (built_fixed blocks t d bid)
  then show ?case by (auto simp: fixedBlock_fields)
next
  case (built_priority blocks t d so bid)
  then show ?case by (auto simp: stackedBlock_fields)
next
  case (built_micro blocks t d bid)
  have snd: "\<forall>b\<in>set blocks. sound b"
    using wf built_micro.hyps(1) by (rule built_sound)
  note a = admitted_micro [OF wf snd built_micro.hyps(5)]
  have "blockMins (stackedBlock bid (task_id t) d
          (stackStart (timeToMinutes (workStart cap)) (timeToMinutes (workEnd cap))
             (getPlannedMinutesForDay blocks d True) 20) 20 5 Light 4) = Num 20"
    using a(2) by (simp add: a(1) stackedBlock_times)
  with built_micro.IH built_micro.prems show ?case
    by auto
qed

text \<open>
  Claim C9, as the code has it. A micro block stands on a date of the window, for an
  uncompleted MicroTask estimated at 15 minutes at most, with \<open>bufferMinutes = 5\<close> and
  energy Light, and on well-formed input it is 20 minutes long. When the dates of the
  window are pairwise distinct, pass 4 adds at most one micro block for each date, on a
  date for which the planned minutes of passes 1 to 3 are not
  \<open>maxPlannedHoursPerDay * 60 - 20\<close>, as JavaScript computes it, or more, a number
  strictly below that bound on well-formed input; and the task has no other block on
  that date.
\<close>

theorem micro_pass_blocks:
  assumes run: "runWeeklyScheduler g cal st weekStart = Inr bs"
    and wd: "cal weekStart = Some dd"
  shows "(\<forall>b\<in>set bs. sortOrder b = 4 \<longrightarrow>
            date b \<in> set dd \<and>
            (\<exists>t\<in>set (tasks st). task_id t = taskId b \<and> taskType t = MicroTask \<and>
                                  estimatedMinutes t \<le> 15 \<and> \<not> completed t) \<and>
            bufferMinutes b = 5 \<and> energyType b = Light \<and>
            (wellFormedInput (capacityOf st) (tasks st) \<longrightarrow> blockMins b = Num 20)) \<and>
         (distinct dd \<longrightarrow>
            (\<forall>d. length (filter (\<lambda>b. sortOrder b = 4 \<and> date b = d) bs) \<le> 1) \<and>
            (\<forall>b\<in>set bs. sortOrder b = 4 \<longrightarrow>
               \<not> js_ge (getPlannedMinutesForDay (priorityBlocks g st dd) (date b) True)
                    (fsub (fmul (maxPlannedHoursPerDay (capacityOf st)) 60) 20) \<and>
               length (filter (\<lambda>c. taskId c = taskId b \<and> date c = date b) bs) = 1 \<and>
               (wellFormedInput (capacityOf st) (tasks st) \<longrightarrow>
                  js_lt (getPlannedMinutesForDay (priorityBlocks g st dd) (date b) True)
                    (fsub (fmul (maxPlannedHoursPerDay (capacityOf st)) 60) 20))))"
proof -
  let ?cap = "capacityOf st" and ?base = "priorityBlocks g st dd"
  let ?mts = "filter isMicroTask (tasks st)"
  from run wd have bs: "bs = sortBlocks (allocate g st dd)"
    by (simp add: runWeeklyScheduler_def)
  have ab: "built ?cap (tasks st) dd True (allocate g st dd)"
    by (rule allocate_built)
  have fields: "date b \<in> set dd \<and>
      (\<exists>t\<in>set (tasks st). task_id t = taskId b \<and> taskType t = MicroTask \<and>
                            estimatedMinutes t \<le> 15 \<and> \<not> completed t) \<and>
      bufferMinutes b = 5 \<and> energyType b = Light \<and>
      (wellFormedInput ?cap (tasks st) \<longrightarrow> blockMins b = Num 20)"
    if b: "b \<in> set bs" and so: "sortOrder b = 4" for b
  proof -
    from b have mem: "b \<in> set (allocate g st dd)"
      by (simp add: bs set_sortBlocks)
    from built_micro_fields [OF ab mem so] built_micro_length [OF _ ab mem so]
    show ?thesis
      by (auto simp: isMicroTask_def)
  qed
  have rest: "(\<forall>d. length (filter (\<lambda>b. sortOrder b = 4 \<and> date b = d) bs) \<le> 1) \<and>
      (\<forall>b\<in>set bs. sortOrder b = 4 \<longrightarrow>
         \<not> js_ge (getPlannedMinutesForDay ?base (date b) True)
              (fsub (fmul (maxPlannedHoursPerDay ?cap) 60) 20) \<and>
         length (filter (\<lambda>c. taskId c = taskId b \<and> date c = date b) bs) = 1 \<and>
         (wellFormedInput ?cap (tasks st) \<longrightarrow>
            js_lt (getPlannedMinutesForDay ?base (date b) True)
              (fsub (fmul (maxPlannedHoursPerDay ?cap) 60) 20)))"
    if dd: "distinct dd"
  proof -
    from allocate_decomp [OF dd, of g st] obtain ms where
      al: "allocate g st dd = ?base @ ms" and dm: "distinct (map date ms)"
      and mb: "\<forall>m\<in>set ms. microBlockOn ?cap ?mts ?base m"
      by blast
    have bb: "built ?cap (tasks st) dd False ?base"
      by (rule priorityBlocks_built)
    have nm: "\<forall>b\<in>set ?base. sortOrder b \<noteq> 4"
      using bb by (rule built_no_micro)
    have count: "length (filter P bs) = length (filter P ?base) + length (filter P ms)" for P
      by (simp add: bs filter_length_sortBlocks al)
    have one: "length (filter (\<lambda>b. sortOrder b = 4 \<and> date b = d) bs) \<le> 1" for d
    proof -
      have "filter (\<lambda>b. sortOrder b = 4 \<and> date b = d) ?base = []"
        using nm by (auto simp: filter_empty_conv)
      then show ?thesis
        using distinct_map_filter_le [OF dm, of "\<lambda>b. sortOrder b = 4" d]
        by (simp add: count)
    qed
    have each: "\<not> js_ge (getPlannedMinutesForDay ?base (date b) True)
             (fsub (fmul (maxPlannedHoursPerDay ?cap) 60) 20) \<and>
        length (filter (\<lambda>c. taskId c = taskId b \<and> date c = date b) bs) = 1 \<and>
        (wellFormedInput ?cap (tasks st) \<longrightarrow>
           js_lt (getPlannedMinutesForDay ?base (date b) True)
             (fsub (fmul (maxPlannedHoursPerDay ?cap) 60) 20))"
      if b: "b \<in> set bs" and so: "sortOrder b = 4" for b
    proof -
      from b have "b \<in> set ?base \<or> b \<in> set ms"
        by (simp add: bs set_sortBlocks al)
      with nm so have bm: "b \<in> set ms"
        by auto
      with mb have m: "microBlockOn ?cap ?mts ?base b"
        by simp
      note f = microBlockOn_fields [OF m]
      have "filter (\<lambda>c. taskId c = taskId b \<and> date c = date b) ?base = []"
        using f(5) by (auto simp: filter_empty_conv list_ex_iff)
      moreover have "length (filter (\<lambda>c. taskId c = taskId b \<and> date c = date b) ms) = 1"
        using distinct_map_filter_one [OF dm bm, of "\<lambda>c. taskId c = taskId b"] by simp
      ultimately have uniq: "length (filter (\<lambda>c. taskId c = taskId b \<and> date c = date b) bs) = 1"
        by (simp add: count)
      have lt: "js_lt (getPlannedMinutesForDay ?base (date b) True)
                  (fsub (fmul (maxPlannedHoursPerDay ?cap) 60) 20)"
        if wf: "wellFormedInput ?cap (tasks st)"
      proof -
        have "\<forall>x\<in>set ?base. sound x"
          using wf bb by (rule built_sound)
        with microBlockOn_length(2) [OF m wf] show ?thesis
          by simp
      qed
      from f(6) uniq lt show ?thesis
        by blast
    qed
    from one each show ?thesis
      by blast
  qed
  from fields rest show ?thesis
    by blast
qed

theorem micro_pass_blocks_witness:
  "runWeeklyScheduler sampleIds sampleCalendar (sampleState [] [microTen]) ''2025-02-24'' =
     Inr (map (\<lambda>d. pendingBlock ''m1'' d ''09:00'' ''09:20'' 5 Light 4) sampleWeek) \<and>
   sampleCalendar ''2025-02-24'' = Some sampleWeek \<and> distinct sampleWeek \<and>
   wellFormedInput (capacityOf (sampleState [] [microTen])) [microTen] \<and>
   sortOrder (pendingBlock ''m1'' ''2025-02-24'' ''09:00'' ''09:20'' 5 Light 4) = 4 \<and>
   blockMins (pendingBlock ''m1'' ''2025-02-24'' ''09:00'' ''09:20'' 5 Light 4) = Num 20 \<and>
   bufferMinutes (pendingBlock ''m1'' ''2025-02-24'' ''09:00'' ''09:20'' 5 Light 4) = 5 \<and>
   energyType (pendingBlock ''m1'' ''2025-02-24'' ''09:00'' ''09:20'' 5 Light 4) = Light \<and>
   length (filter (\<lambda>b. sortOrder b = 4 \<and> date b = ''2025-02-24'')
             (map (\<lambda>d. pendingBlock ''m1'' d ''09:00'' ''09:20'' 5 Light 4) sampleWeek)) \<le> 1"
proof -
  let ?st = "sampleState [] [microTen]"
  let ?b = "pendingBlock ''m1'' ''2025-02-24'' ''09:00'' ''09:20'' 5 Light 4"
  let ?bs = "map (\<lambda>d. pendingBlock ''m1'' d ''09:00'' ''09:20'' 5 Light 4) sampleWeek"
  have wf: "wellFormedInput (capacityOf ?st) (tasks ?st)"
    by (simp add: capacityOf_sampleState tasks_sampleState wellFormedInput_default
        microTen_def sampleTask_def)
  have mem: "?b \<in> set ?bs"
    by (simp add: sampleWeek_def)
  have so: "sortOrder ?b = 4"
    by (simp add: pendingBlock_def)
  note t = micro_pass_blocks [OF run_microTen sampleCalendar_week]
  from t distinct_sampleWeek
  have one: "length (filter (\<lambda>b. sortOrder b = 4 \<and> date b = ''2025-02-24'') ?bs) \<le> 1"
    by blast
  from t mem so wf have "blockMins ?b = Num 20 \<and> bufferMinutes ?b = 5 \<and> energyType ?b = Light"
    by blast
  with one so wf run_microTen sampleCalendar_week distinct_sampleWeek show ?thesis
    by (simp add: tasks_sampleState)
qed

text \<open>
  The claim as stated fails: with a work window that ends at 00:10 the start of the micro
  block falls before midnight, its clock string is \<open>-1:-10\<close>, and the block from there
  to 00:10 counts 80 minutes.
\<close>

theorem micro_block_length_counterexample:
  "runWeeklyScheduler sampleIds sampleCalendar earlyEndState ''2025-02-24'' =
     Inr (map (\<lambda>d. pendingBlock ''m1'' d ''-1:-10'' ''00:10'' 5 Light 4) sampleWeek) \<and>
   sortOrder (pendingBlock ''m1'' ''2025-02-24'' ''-1:-10'' ''00:10'' 5 Light 4) = 4 \<and>
   blockMins (pendingBlock ''m1'' ''2025-02-24'' ''-1:-10'' ''00:10'' 5 Light 4) = Num 80"
  using run_earlyEnd
  by (simp add: blockMins_def pendingBlock_def time_eval)

section \<open>How often a task is placed\<close>

lemma foldl_task_blocks:
  assumes "\<And>acc x. x \<in> set xs \<Longrightarrow>
             step acc x = acc \<or>
             (\<exists>b. step acc x = acc @ [b] \<and> taskId b = task_id x \<and> sortOrder b = k)"
    and "distinct (map task_id xs)"
  shows "\<exists>extra. foldl step acc xs = acc @ extra \<and> distinct (map taskId extra) \<and>
                 taskId ` set extra \<subseteq> task_id ` set xs \<and> (\<forall>m\<in>set extra. sortOrder m = k)"
  using assms
proof (induction xs arbitrary: acc)
  case Nil
  then show ?case by simp
next
  case (Cons x xs)
  have st: "\<And>acc y. y \<in> set xs \<Longrightarrow>
             step acc y = acc \<or>
             (\<exists>b. step acc y = acc @ [b] \<and> taskId b = task_id y \<and> sortOrder b = k)"
    using Cons.prems(1) by simp
  have dx: "distinct (map task_id xs)" and nx: "task_id x \<notin> task_id ` set xs"
    using Cons.prems(2) by simp_all
  from Cons.IH [OF st dx, of "step acc x"] obtain extra where
    e: "foldl step (step acc x) xs = step acc x @ extra" "distinct (map taskId extra)"
      "taskId ` set extra \<subseteq> task_id ` set xs" "\<forall>m\<in>set extra. sortOrder m = k"
    by blast
  have "step acc x = acc \<or>
        (\<exists>b. step acc x = acc @ [b] \<and> taskId b = task_id x \<and> sortOrder b = k)"
    using Cons.prems(1) [of x acc] by simp
  then show ?case
  proof
    assume "step acc x = acc"
    with e show ?thesis
      by (intro exI [of _ extra]) auto
  next
    assume "\<exists>b. step acc x = acc @ [b] \<and> taskId b = task_id x \<and> sortOrder b = k"
    then obtain b where b: "step acc x = acc @ [b]" "taskId b = task_id x" "sortOrder b = k"
      by blast
    have "taskId b \<notin> taskId ` set extra"
      using e(3) nx b(2) by auto
    with e b show ?thesis
      by (intro exI [of _ "b # extra"]) auto
  qed
qed

lemma placeFixed_task:
  "placeFixed g cap dd acc t = acc \<or>
   (\<exists>b. placeFixed g cap dd acc t = acc @ [b] \<and> taskId b = task_id t \<and> sortOrder b = 1)"
  using placeFixed_shape [of g cap dd acc t] by (auto simp: fixedBlock_fields)

lemma placeDeadline_task:
  "placeDeadline g cap ws we dd acc t = acc \<or>
   (\<exists>b. placeDeadline g cap ws we dd acc t = acc @ [b] \<and> taskId b = task_id t \<and>
        sortOrder b = 2)"
  using placeDeadline_shape [of g cap ws we dd acc t] by (auto simp: stackedBlock_fields)

lemma deadline_ids_fresh:
  assumes "t \<in> set (filter (isDeadlineTask fs) ts)"
  shows "task_id t \<notin> task_id ` set fs"
  using assms by (auto simp: isDeadlineTask_def list_ex_iff)

text \<open>The blocks of passes 1 and 2: one block at most for each task, none for two.\<close>

lemma deadlinePass_ids:
  assumes "distinct (map task_id ts)"
  shows "distinct (map taskId (deadlinePass g cap dd ts (fixedPass g cap dd ts))) \<and>
         (\<forall>b\<in>set (deadlinePass g cap dd ts (fixedPass g cap dd ts)).
            sortOrder b = 1 \<or> sortOrder b = 2)"
proof -
  let ?fs = "filter isFixedTask ts"
  let ?ds = "filter (isDeadlineTask ?fs) ts"
  have df: "distinct (map task_id ?fs)" and dds: "distinct (map task_id ?ds)"
    using assms by (simp_all add: distinct_map_filter)
  from foldl_task_blocks [of ?fs "placeFixed g cap dd" 1 "[]", OF placeFixed_task df]
  obtain e1 where e1: "fixedPass g cap dd ts = e1" "distinct (map taskId e1)"
    "taskId ` set e1 \<subseteq> task_id ` set ?fs" "\<forall>m\<in>set e1. sortOrder m = 1"
    by (auto simp: fixedPass_def)
  from foldl_task_blocks [of ?ds "placeDeadline g cap (timeToMinutes (workStart cap))
      (timeToMinutes (workEnd cap)) dd" 2 e1, OF placeDeadline_task dds]
  obtain e2 where e2: "deadlinePass g cap dd ts e1 = e1 @ e2" "distinct (map taskId e2)"
    "taskId ` set e2 \<subseteq> task_id ` set ?ds" "\<forall>m\<in>set e2. sortOrder m = 2"
    by (auto simp: deadlinePass_def)
  have "task_id ` set ?ds \<inter> task_id ` set ?fs = {}"
    using deadline_ids_fresh [of _ ?fs ts] by blast
  with e1(3) e2(3) have "taskId ` set e1 \<inter> taskId ` set e2 = {}"
    by blast
  with e1 e2 show ?thesis
    by auto
qed


lemma goalDays_decomp:
  assumes "distinct ds" and "\<forall>m\<in>set new. date m \<notin> set ds"
  shows "\<exists>new' n'.
           goalDays g cap ws we quota gts ds (old @ new, ids \<union> taskId ` set new, n) =
             (old @ new @ new', ids \<union> taskId ` set (new @ new'), n') \<and>
           distinct (map date new') \<and> set (map date new') \<subseteq> set ds \<and>
           (\<forall>m\<in>set new'. sortOrder m = 3 \<and> taskId m \<in> task_id ` set gts)"
  using assms
proof (induction ds arbitrary: new n)
  case Nil
  then show ?case by simp
next
  case (Cons d ds)
  let ?st = "(old @ new, ids \<union> taskId ` set new, n)"
  show ?case
  proof (cases "n \<ge> quota")
    case True
    then show ?thesis
      by (intro exI [of _ "[]"] exI [of _ n]) simp
  next
    case False
    have rest: "\<forall>m\<in>set new. date m \<notin> set ds" and dds: "distinct ds" and dn: "d \<notin> set ds"
      using Cons.prems by auto
    from goalDay_shape [of g cap ws we gts d "old @ new" "ids \<union> taskId ` set new" n]
    show ?thesis
    proof
      assume same: "goalDay g cap ws we gts d ?st = ?st"
      from Cons.IH [OF dds rest, of n] obtain new' n' where
        "goalDays g cap ws we quota gts ds ?st =
           (old @ new @ new', ids \<union> taskId ` set (new @ new'), n')"
        "distinct (map date new')" "set (map date new') \<subseteq> set ds"
        "\<forall>m\<in>set new'. sortOrder m = 3 \<and> taskId m \<in> task_id ` set gts"
        by blast
      with same False show ?thesis
        by (intro exI [of _ new'] exI [of _ n']) auto
    next
      assume "\<exists>t\<in>set gts.
        ok (wouldExceedDailyLimits cap (old @ new) d (totalMinsOf t + bufferOf cap t)
              (task_energyType t)) \<and>
        goalDay g cap ws we gts d ?st =
          ((old @ new) @
           [stackedBlock (g (length (old @ new))) (task_id t) d
              (stackStart ws we (getPlannedMinutesForDay (old @ new) d True)
                 (totalMinsOf t + bufferOf cap t))
              (totalMinsOf t + bufferOf cap t) (bufferOf cap t) (task_energyType t) 3],
           insert (task_id t) (ids \<union> taskId ` set new), n + 1)"
      then obtain t nb where t: "t \<in> set gts"
        and nb: "date nb = d" "taskId nb = task_id t" "sortOrder nb = 3"
        and step: "goalDay g cap ws we gts d ?st =
          (old @ (new @ [nb]), ids \<union> taskId ` set (new @ [nb]), n + 1)"
        by (auto simp: stackedBlock_fields)
      have "\<forall>m\<in>set (new @ [nb]). date m \<notin> set ds"
        using rest nb(1) dn by auto
      from Cons.IH [OF dds this, of "n + 1"] obtain new' n' where r:
        "goalDays g cap ws we quota gts ds
           (old @ (new @ [nb]), ids \<union> taskId ` set (new @ [nb]), n + 1) =
           (old @ (new @ [nb]) @ new', ids \<union> taskId ` set ((new @ [nb]) @ new'), n')"
        "distinct (map date new')" "set (map date new') \<subseteq> set ds"
        "\<forall>m\<in>set new'. sortOrder m = 3 \<and> taskId m \<in> task_id ` set gts"
        by blast
      have "d \<notin> set (map date new')"
        using r(3) dn by auto
      with r t nb step False show ?thesis
        by (intro exI [of _ "nb # new'"] exI [of _ n']) auto
    qed
  qed
qed

lemma distinct_blockKey_append:
  assumes "distinct (map blockKey bs)" and "distinct (map date new)"
    and "\<forall>m\<in>set new. \<forall>b\<in>set bs. taskId m = taskId b \<longrightarrow> date m \<noteq> date b"
  shows "distinct (map blockKey (bs @ new))"
proof -
  have "distinct (map blockKey new)"
    using assms(2) by (induction new) (auto simp: blockKey_def)
  moreover have "blockKey ` set bs \<inter> blockKey ` set new = {}"
    using assms(3) by (fastforce simp: blockKey_def)
  ultimately show ?thesis
    using assms(1) by simp
qed

lemma scheduleGoal_keys:
  assumes "distinct dd" and "distinct (map blockKey blocks)"
  shows "\<exists>extra. scheduleGoal g cap ws we ts dd (blocks, taskId ` set blocks) goal =
                   (blocks @ extra, taskId ` set (blocks @ extra)) \<and>
                 distinct (map blockKey (blocks @ extra)) \<and>
                 (\<forall>m\<in>set extra. sortOrder m = 3)"
proof (cases "quotaSessions goal \<le> 0")
  case True
  with assms(2) show ?thesis
    by (intro exI [of _ "[]"]) (simp add: scheduleGoal_def)
next
  case False
  let ?gts = "filter (\<lambda>t. \<not> completed t \<and> taskType t = GoalTask \<and>
                          goalId t = Some (goal_id goal) \<and> task_id t \<notin> taskId ` set blocks) ts"
  from goalDays_decomp [OF assms(1), of "[]" g cap ws we "quotaSessions goal" ?gts blocks
      "taskId ` set blocks" 0]
  obtain new' n' where r:
    "goalDays g cap ws we (quotaSessions goal) ?gts dd (blocks, taskId ` set blocks, 0) =
       (blocks @ new', taskId ` set blocks \<union> taskId ` set new', n')"
    "distinct (map date new')"
    "\<forall>m\<in>set new'. sortOrder m = 3 \<and> taskId m \<in> task_id ` set ?gts"
    by auto
  have "\<forall>m\<in>set new'. \<forall>b\<in>set blocks. taskId m = taskId b \<longrightarrow> date m \<noteq> date b"
    using r(3) by auto
  with assms(2) r(2) have "distinct (map blockKey (blocks @ new'))"
    by (rule distinct_blockKey_append)
  with r False show ?thesis
    by (intro exI [of _ new']) (auto simp: scheduleGoal_def Let_def image_Un)
qed

lemma goals_keys:
  assumes "distinct dd" and "distinct (map blockKey blocks)"
  shows "\<exists>extra. foldl (scheduleGoal g cap ws we ts dd) (blocks, taskId ` set blocks) gs =
                   (blocks @ extra, taskId ` set (blocks @ extra)) \<and>
                 distinct (map blockKey (blocks @ extra)) \<and>
                 (\<forall>m\<in>set extra. sortOrder m = 3)"
  using assms(2)
proof (induction gs arbitrary: blocks)
  case Nil
  then show ?case
    by (intro exI [of _ "[]"]) simp
next
  case (Cons goal gs)
  from scheduleGoal_keys [OF assms(1) Cons.prems, of g cap ws we ts goal]
  obtain e1 where e1:
    "scheduleGoal g cap ws we ts dd (blocks, taskId ` set blocks) goal =
       (blocks @ e1, taskId ` set (blocks @ e1))"
    "distinct (map blockKey (blocks @ e1))" "\<forall>m\<in>set e1. sortOrder m = 3"
    by blast
  from Cons.IH [OF e1(2)] obtain e2 where e2:
    "foldl (scheduleGoal g cap ws we ts dd) (blocks @ e1, taskId ` set (blocks @ e1)) gs =
       ((blocks @ e1) @ e2, taskId ` set ((blocks @ e1) @ e2))"
    "distinct (map blockKey ((blocks @ e1) @ e2))" "\<forall>m\<in>set e2. sortOrder m = 3"
    by blast
  from e1 e2 show ?case
    by (intro exI [of _ "e1 @ e2"]) auto
qed

lemma goalPass_keys:
  assumes "distinct dd" and "distinct (map blockKey blocks)"
  shows "\<exists>extra. goalPass g cap dd gs ts blocks = blocks @ extra \<and>
                 distinct (map blockKey (blocks @ extra)) \<and>
                 (\<forall>m\<in>set extra. sortOrder m = 3)"
  using goals_keys [OF assms, of g cap "timeToMinutes (workStart cap)"
      "timeToMinutes (workEnd cap)" ts "sort_key priorityTier (filter active gs)"]
  by (auto simp: goalPass_def)


lemma distinct_map_insertBlock:
  "distinct (map f (insertBlock x ys)) = (f x \<notin> f ` set ys \<and> distinct (map f ys))"
  by (induction ys) (auto simp: set_insertBlock)

lemma distinct_map_sortBlocks: "distinct (map f (sortBlocks bs)) = distinct (map f bs)"
proof (induction bs)
  case Nil
  show ?case by (simp add: sortBlocks_def)
next
  case (Cons x xs)
  have "distinct (map f (sortBlocks (x # xs))) = distinct (map f (insertBlock x (sortBlocks xs)))"
    by (simp add: sortBlocks_def)
  also have "\<dots> = (f x \<notin> f ` set xs \<and> distinct (map f xs))"
    using Cons by (simp add: distinct_map_insertBlock set_sortBlocks)
  finally show ?case by simp
qed

lemma distinct_filter_insertBlock:
  "distinct (map f (filter P (insertBlock x ys))) = distinct (map f (filter P (x # ys)))"
proof (induction ys)
  case Nil
  show ?case by simp
next
  case (Cons y ys)
  show ?case
  proof (cases "compareBlocks x y \<le> 0")
    case True
    then show ?thesis by simp
  next
    case False
    have s: "set (filter P (insertBlock x ys)) = set (filter P (x # ys))"
      by (simp only: set_filter set_insertBlock list.set)
    have "distinct (map f (filter P (insertBlock x (y # ys)))) =
          distinct (map f (filter P (y # insertBlock x ys)))"
      using False by simp
    also have "\<dots> = ((P y \<longrightarrow> f y \<notin> f ` set (filter P (insertBlock x ys))) \<and>
                       distinct (map f (filter P (insertBlock x ys))))"
      by simp
    also have "\<dots> = ((P y \<longrightarrow> f y \<notin> f ` set (filter P (x # ys))) \<and>
                       distinct (map f (filter P (x # ys))))"
      by (simp only: s Cons.IH)
    also have "\<dots> = distinct (map f (filter P (y # x # ys)))"
      by simp
    also have "\<dots> = distinct (map f (filter P (x # y # ys)))"
      by (cases "P x"; cases "P y") auto
    finally show ?thesis .
  qed
qed

lemma distinct_filter_sortBlocks:
  "distinct (map f (filter P (sortBlocks bs))) = distinct (map f (filter P bs))"
proof (induction bs)
  case Nil
  show ?case by (simp add: sortBlocks_def)
next
  case (Cons x xs)
  have "distinct (map f (filter P (sortBlocks (x # xs)))) =
        distinct (map f (filter P (x # sortBlocks xs)))"
    by (simp add: sortBlocks_def distinct_filter_insertBlock)
  also have "\<dots> = distinct (map f (filter P (x # xs)))"
    using Cons by (simp add: set_sortBlocks)
  finally show ?case .
qed

lemma distinct_taskId_blockKey: "distinct (map taskId bs) \<Longrightarrow> distinct (map blockKey bs)"
  by (induction bs) (auto simp: blockKey_def)

lemma run_goal_twice:
  "runWeeklyScheduler sampleIds sampleCalendar (sampleState [twoSessions] [goalHour]) ''2025-02-24'' =
     Inr [pendingBlock ''t5'' ''2025-02-24'' ''09:00'' ''10:30'' 15 Deep 3,
          pendingBlock ''t5'' ''2025-02-25'' ''09:00'' ''10:30'' 15 Deep 3]"
  by (simp add: runWeeklyScheduler_def sampleCalendar_week)
    (simp add: pass_eval sample_eval time_eval split del: if_split)

text \<open>Passes 3 and 4 leave the blocks of sort order 1 and 2 as passes 1 and 2 made them.\<close>

lemma goalDay_low:
  "filter (\<lambda>b. sortOrder b \<le> 2) (fst (goalDay g cap ws we gts d st)) =
   filter (\<lambda>b. sortOrder b \<le> 2) (fst st)"
proof -
  obtain blocks ids n where st: "st = (blocks, ids, n)"
    by (cases st)
  from goalDay_shape [of g cap ws we gts d blocks ids n] show ?thesis
    by (auto simp: st stackedBlock_fields)
qed

lemma goalDays_low:
  "filter (\<lambda>b. sortOrder b \<le> 2) (fst (goalDays g cap ws we q gts ds st)) =
   filter (\<lambda>b. sortOrder b \<le> 2) (fst st)"
  by (induction ds arbitrary: st) (simp_all add: goalDay_low)

lemma scheduleGoal_low:
  "filter (\<lambda>b. sortOrder b \<le> 2) (fst (scheduleGoal g cap ws we ts dd acc goal)) =
   filter (\<lambda>b. sortOrder b \<le> 2) (fst acc)"
proof -
  obtain blocks ids where acc: "acc = (blocks, ids)"
    by (cases acc)
  have "fst (case r of (blocks', ids', n') \<Rightarrow> (blocks', ids')) = fst r"
    for r :: "ScheduledBlock list \<times> string set \<times> int"
    by (cases r) simp
  then show ?thesis
    using goalDays_low [of g cap ws we "quotaSessions goal" _ dd "(blocks, ids, 0)"]
    by (simp add: acc scheduleGoal_def Let_def)
qed

lemma goalPass_low:
  "filter (\<lambda>b. sortOrder b \<le> 2) (goalPass g cap dd gs ts blocks) =
   filter (\<lambda>b. sortOrder b \<le> 2) blocks"
proof -
  have "filter (\<lambda>b. sortOrder b \<le> 2) (fst (foldl (scheduleGoal g cap ws we ts dd) acc xs)) =
        filter (\<lambda>b. sortOrder b \<le> 2) (fst acc)" for ws we acc xs
    by (induction xs arbitrary: acc) (simp_all add: scheduleGoal_low)
  then show ?thesis
    by (simp add: goalPass_def)
qed

lemma microPass_low:
  "filter (\<lambda>b. sortOrder b \<le> 2) (microPass g cap dd ts blocks) =
   filter (\<lambda>b. sortOrder b \<le> 2) blocks"
proof -
  have step: "filter (\<lambda>b. sortOrder b \<le> 2) (placeMicro g cap ws we mts acc d) =
              filter (\<lambda>b. sortOrder b \<le> 2) acc" for ws we mts acc d
    using placeMicro_shape [of g cap ws we mts acc d]
    by (auto simp: stackedBlock_fields)
  have "filter (\<lambda>b. sortOrder b \<le> 2) (foldl (placeMicro g cap ws we mts) acc ds) =
        filter (\<lambda>b. sortOrder b \<le> 2) acc" for ws we mts acc ds
    by (induction ds arbitrary: acc) (simp_all add: step)
  then show ?thesis
    by (simp add: microPass_def)
qed

text \<open>
  Claim C4, as the code has it. Pass 4 looks for a micro task without a block on the date
  at hand, so the same micro task comes back on every date with room. What holds, when the
  tasks of the state have distinct identifiers: no two blocks of sort order 1 or 2 have the
  same task, and, when the seven dates of the window are pairwise distinct, no two blocks
  of the result have the same task and the same date.
\<close>

theorem tasks_placed_once:
  assumes run: "runWeeklyScheduler g cal st weekStart = Inr bs"
    and wd: "cal weekStart = Some dd"
    and ids: "distinct (map task_id (tasks st))"
  shows "(distinct dd \<longrightarrow> distinct (map blockKey bs)) \<and>
         distinct (map taskId (filter (\<lambda>b. sortOrder b \<le> 2) bs))"
proof -
  let ?cap = "capacityOf st"
  let ?b2 = "deadlinePass g ?cap dd (tasks st) (fixedPass g ?cap dd (tasks st))"
  let ?base = "priorityBlocks g st dd"
  from run wd have bs: "bs = sortBlocks (allocate g st dd)"
    by (simp add: runWeeklyScheduler_def)
  have two: "distinct (map taskId ?b2)" "\<forall>b\<in>set ?b2. sortOrder b = 1 \<or> sortOrder b = 2"
    using deadlinePass_ids [OF ids, of g ?cap dd] by simp_all
  have "filter (\<lambda>b. sortOrder b \<le> 2) (allocate g st dd) = filter (\<lambda>b. sortOrder b \<le> 2) ?b2"
    by (simp add: allocate_def priorityBlocks_def Let_def microPass_low goalPass_low)
  also have "\<dots> = ?b2"
    using two(2) by (auto simp: filter_id_conv)
  finally have low: "distinct (map taskId (filter (\<lambda>b. sortOrder b \<le> 2) bs))"
    using two(1) by (simp add: bs distinct_filter_sortBlocks)
  have keys: "distinct (map blockKey bs)" if dd: "distinct dd"
  proof -
    from goalPass_keys [OF dd distinct_taskId_blockKey [OF two(1)], of g ?cap "goals st" "tasks st"]
    have e3: "distinct (map blockKey ?base)"
      by (auto simp: priorityBlocks_def Let_def)
    from allocate_decomp [OF dd, of g st] obtain ms where
      al: "allocate g st dd = ?base @ ms" and dm: "distinct (map date ms)"
      and mb: "\<forall>m\<in>set ms. microBlockOn ?cap (filter isMicroTask (tasks st)) ?base m"
      by blast
    have fresh: "\<forall>m\<in>set ms. \<forall>b\<in>set ?base. taskId m = taskId b \<longrightarrow> date m \<noteq> date b"
    proof (intro ballI impI)
      fix m b
      assume "m \<in> set ms" and b: "b \<in> set ?base" and "taskId m = taskId b"
      with mb microBlockOn_fields(5) [of ?cap "filter isMicroTask (tasks st)" ?base m]
      show "date m \<noteq> date b"
        by (auto simp: list_ex_iff)
    qed
    have "distinct (map blockKey (allocate g st dd))"
      unfolding al using e3 dm fresh by (rule distinct_blockKey_append)
    then show ?thesis
      by (simp add: bs distinct_map_sortBlocks)
  qed
  from keys low show ?thesis
    by blast
qed

theorem tasks_placed_once_witness:
  "runWeeklyScheduler sampleIds sampleCalendar (sampleState [] [deadlineHour, deadlineSecond])
     ''2025-02-24'' =
     Inr [pendingBlock ''t2'' ''2025-02-25'' ''09:00'' ''10:30'' 15 Deep 2,
          pendingBlock ''t4'' ''2025-02-25'' ''10:45'' ''12:15'' 15 Light 2] \<and>
   sampleCalendar ''2025-02-24'' = Some sampleWeek \<and> distinct sampleWeek \<and>
   distinct (map task_id [deadlineHour, deadlineSecond]) \<and>
   distinct (map blockKey
     [pendingBlock ''t2'' ''2025-02-25'' ''09:00'' ''10:30'' 15 Deep 2,
      pendingBlock ''t4'' ''2025-02-25'' ''10:45'' ''12:15'' 15 Light 2]) \<and>
   distinct (map taskId (filter (\<lambda>b. sortOrder b \<le> 2)
     [pendingBlock ''t2'' ''2025-02-25'' ''09:00'' ''10:30'' 15 Deep 2,
      pendingBlock ''t4'' ''2025-02-25'' ''10:45'' ''12:15'' 15 Light 2]))"
proof -
  have ids: "distinct (map task_id (tasks (sampleState [] [deadlineHour, deadlineSecond])))"
    by (simp add: tasks_sampleState deadlineHour_def deadlineSecond_def sampleTask_def)
  show ?thesis
    using tasks_placed_once [OF run_two_deadlines sampleCalendar_week ids] run_two_deadlines ids
      sampleCalendar_week distinct_sampleWeek
    by (simp add: tasks_sampleState)
qed

text \<open>
  The claim as stated fails: a single micro task gets a block on each of the seven dates,
  so seven blocks of the result carry the same task identifier.
\<close>

theorem micro_task_repeats_counterexample:
  "runWeeklyScheduler sampleIds sampleCalendar (sampleState [] [microTen]) ''2025-02-24'' =
     Inr (map (\<lambda>d. pendingBlock ''m1'' d ''09:00'' ''09:20'' 5 Light 4) sampleWeek) \<and>
   \<not> distinct (map taskId
         (map (\<lambda>d. pendingBlock ''m1'' d ''09:00'' ''09:20'' 5 Light 4) sampleWeek))"
  using run_microTen
  by (simp add: pendingBlock_def sampleWeek_def)

section \<open>The store the caller sees\<close>

text \<open>
  The functions over the store return what the functions over values return, and a store
  that has grown: cells below the old length are as they were, except, inside
  \<open>runWeeklyScheduler\<close>, the cell of its own array \<open>blocks\<close>.
\<close>

lemma grows_refl: "grows r h h"
  by (simp add: grows_def)

lemma grows_trans: "grows r h h1 \<Longrightarrow> grows r h1 h2 \<Longrightarrow> grows r h h2"
  by (auto simp add: grows_def)

lemma grows_append: "grows r h (h @ hs)"
  by (simp add: grows_def nth_append)

lemma grows_push: "grows r h (pushBlock r b h)"
  by (simp add: grows_def pushBlock_def)

lemma grows_update: "grows r h (h[r := c])"
  by (simp add: grows_def)

lemma live_append: "live h r \<Longrightarrow> live (h @ hs) r"
  by (simp add: live_def nth_append)

lemma live_push: "live h r \<Longrightarrow> live (pushBlock r b h) r"
  by (simp add: live_def pushBlock_def)

lemma live_less: "live h r \<Longrightarrow> r < length h"
  by (simp add: live_def)

lemma blocksAt_push: "r < length h \<Longrightarrow> blocksAt (pushBlock r b h) r = blocksAt h r @ [b]"
  by (simp add: blocksAt_def pushBlock_def)

lemma blocksAt_append: "r < length h \<Longrightarrow> blocksAt (h @ hs) r = blocksAt h r"
  by (simp add: blocksAt_def nth_append)

lemma blocksAt_fresh: "blocksAt (h @ [BlockArr bs]) (length h) = bs"
  by (simp add: blocksAt_def)

lemma tasksAt_grows: "grows r h h' \<Longrightarrow> a < length h \<Longrightarrow> a \<noteq> r \<Longrightarrow> tasksAt h' a = tasksAt h a"
  by (auto simp add: grows_def tasksAt_def)

lemma strsAt_grows: "grows r h h' \<Longrightarrow> a < length h \<Longrightarrow> a \<noteq> r \<Longrightarrow> strsAt h' a = strsAt h a"
  by (auto simp add: grows_def strsAt_def)

lemma goalsAt_grows: "grows r h h' \<Longrightarrow> a < length h \<Longrightarrow> a \<noteq> r \<Longrightarrow> goalsAt h' a = goalsAt h a"
  by (auto simp add: grows_def goalsAt_def)

lemma grows_length: "grows r h h' \<Longrightarrow> length h \<le> length h'"
  by (simp add: grows_def)

lemma grows_frame: "grows r h h' \<Longrightarrow> n \<le> length h \<Longrightarrow> n \<le> r \<Longrightarrow> take n h' = take n h"
  by (rule nth_equalityI) (auto simp add: grows_def)

lemma tracks_id: "live h r \<Longrightarrow> tracks r h h (blocksAt h r)"
  by (simp add: tracks_def grows_refl)

lemma tracks_append: "live h r \<Longrightarrow> tracks r h (h @ hs) (blocksAt h r)"
  by (simp add: tracks_def grows_append live_append blocksAt_append live_less)

lemma tracks_push: "live h r \<Longrightarrow> tracks r h (pushBlock r b h) (blocksAt h r @ [b])"
  by (simp add: tracks_def grows_push live_push blocksAt_push live_less)

lemma tracks_trans: "tracks r h h1 bs1 \<Longrightarrow> tracks r h1 h2 bs2 \<Longrightarrow> tracks r h h2 bs2"
  by (auto simp add: tracks_def intro: grows_trans)

lemma tracks_append_push:
  "live h r \<Longrightarrow> tracks r h (pushBlock r b (h @ hs)) (blocksAt h r @ [b])"
proof -
  assume l: "live h r"
  from tracks_push [OF live_append [OF l, of hs], of b]
  have "tracks r (h @ hs) (pushBlock r b (h @ hs)) (blocksAt h r @ [b])"
    using l by (simp add: blocksAt_append live_less)
  with tracks_append [OF l, of hs] show ?thesis by (rule tracks_trans)
qed

lemma getPlannedH_snd:
  "snd (getPlannedMinutesForDayH h r d i) = h @ [BlockArr (filter (counts_on d) (blocksAt h r))]"
  by (simp add: getPlannedMinutesForDayH_def alloc_def)

lemma getPlannedH_fst:
  "fst (getPlannedMinutesForDayH h r d i) = getPlannedMinutesForDay (blocksAt h r) d i"
  by (simp add: getPlannedMinutesForDayH_def alloc_def getPlannedMinutesForDay_def blocksAt_fresh)

lemma weeklySumH_snd: "\<exists>hs. snd (weeklySumH r ds (t, h)) = h @ hs"
proof (induction ds arbitrary: t h)
  case Nil
  show ?case by simp
next
  case (Cons d ds)
  obtain p h1 where p: "getPlannedMinutesForDayH h r d True = (p, h1)"
    by (cases "getPlannedMinutesForDayH h r d True")
  from p getPlannedH_snd [of h r d True] obtain c1 where h1: "h1 = h @ [c1]" by simp
  from Cons.IH [of "js_add t p" h1] obtain hs where
    "snd (weeklySumH r ds (js_add t p, h1)) = h1 @ hs" by blast
  then show ?case by (simp add: p h1)
qed

lemma weeklySumH_fst:
  "r < length h \<Longrightarrow>
   fst (weeklySumH r ds (t, h)) =
     foldl (\<lambda>total_w d. js_add total_w (getPlannedMinutesForDay (blocksAt h r) d True)) t ds"
proof (induction ds arbitrary: t h)
  case Nil
  show ?case by simp
next
  case (Cons d ds)
  obtain p h1 where p: "getPlannedMinutesForDayH h r d True = (p, h1)"
    by (cases "getPlannedMinutesForDayH h r d True")
  from p getPlannedH_snd [of h r d True] obtain c1 where h1: "h1 = h @ [c1]" by simp
  from p getPlannedH_fst [of h r d True]
  have pv: "p = getPlannedMinutesForDay (blocksAt h r) d True" by simp
  from Cons.prems have "r < length h1" by (simp add: h1)
  from Cons.IH [OF this, of "js_add t p"] Cons.prems
  show ?case by (simp add: p h1 pv blocksAt_append)
qed

lemma getWeeklyH_snd: "\<exists>hs. snd (getWeeklyPlannedMinutesH cal h r ws) = h @ hs"
proof (cases "cal ws")
  case None
  then show ?thesis by (simp add: getWeeklyPlannedMinutesH_def)
next
  case (Some ds)
  from weeklySumH_snd [of r ds "Num 0" h] obtain hs where
    "snd (weeklySumH r ds (Num 0, h)) = h @ hs" by blast
  then show ?thesis
    by (simp add: getWeeklyPlannedMinutesH_def Some case_prod_beta)
qed

lemma getWeeklyH_fst:
  "r < length h \<Longrightarrow>
   fst (getWeeklyPlannedMinutesH cal h r ws) = getWeeklyPlannedMinutes cal (blocksAt h r) ws"
  using weeklySumH_fst [of r h _ "Num 0"]
  by (simp add: getWeeklyPlannedMinutesH_def getWeeklyPlannedMinutes_def case_prod_beta
      split: option.splits)

lemma tasksAt_append: "a < length h \<Longrightarrow> tasksAt (h @ hs) a = tasksAt h a"
  by (simp add: tasksAt_def nth_append)

lemma strsAt_append: "a < length h \<Longrightarrow> strsAt (h @ hs) a = strsAt h a"
  by (simp add: strsAt_def nth_append)

lemma getPlannedH_eq:
  "getPlannedMinutesForDayH h r d i =
     (getPlannedMinutesForDay (blocksAt h r) d i,
      h @ [BlockArr (filter (counts_on d) (blocksAt h r))])"
  by (simp add: getPlannedMinutesForDayH_def alloc_def getPlannedMinutesForDay_def blocksAt_fresh)

lemma getDeepH_eq:
  "getDeepBlockCountForDayH h r d =
     (getDeepBlockCountForDay (blocksAt h r) d,
      h @ [BlockArr (filter (\<lambda>b. date b = d \<and> energyType b = Deep \<and>
                                 (status b = Pending \<or> status b = InProgress))
                       (blocksAt h r))])"
  by (simp add: getDeepBlockCountForDayH_def alloc_def getDeepBlockCountForDay_def blocksAt_fresh)

lemma wouldExceedH_eq:
  "r < length h \<Longrightarrow>
   wouldExceedDailyLimitsH h cap r d n e =
     (wouldExceedDailyLimits cap (blocksAt h r) d n e,
      h @ BlockArr (filter (counts_on d) (blocksAt h r)) #
          (if \<not> js_gt (js_add (getPlannedMinutesForDay (blocksAt h r) d True) (Num n))
                   (fmul (maxPlannedHoursPerDay cap) 60) \<and> e = Deep
           then [BlockArr (filter (\<lambda>b. date b = d \<and> energyType b = Deep \<and>
                                        (status b = Pending \<or> status b = InProgress))
                              (blocksAt h r))]
           else []))"
  by (simp add: wouldExceedDailyLimitsH_def wouldExceedDailyLimits_def getPlannedH_eq
      getDeepH_eq blocksAt_append Let_def)

lemma placeFixedH_tracks:
  assumes "live h r" and "strsAt h dr = dd"
  shows "tracks r h (placeFixedH g cap dr r h t) (placeFixed g cap dd (blocksAt h r) t)"
  using assms
  by (simp add: placeFixedH_def placeFixed_def fixedBlock_def totalMinsOf_def bufferOf_def
      Let_def tracks_id tracks_push split: option.splits list.splits)

lemma placeDeadlineH_tracks:
  assumes "live h r" and "strsAt h dr = dd"
  shows "tracks r h (placeDeadlineH g cap ws we dr r h t)
           (placeDeadline g cap ws we dd (blocksAt h r) t)"
  using assms live_less [OF assms(1)]
  by (simp add: placeDeadlineH_def placeDeadline_def stackedBlock_def stackStart_def
      totalMinsOf_def bufferOf_def Let_def wouldExceedH_eq getPlannedH_eq blocksAt_append
      js_add_Num_assoc js_sub_Num_assoc tracks_id tracks_append tracks_append_push
      split: option.splits)

lemma placeMicroH_tracks:
  assumes "live h r" and "mr < length h" and "tasksAt h mr = mts"
  shows "tracks r h (placeMicroH g cap ws we mr r h d)
           (placeMicro g cap ws we mts (blocksAt h r) d)"
  using assms live_less [OF assms(1)]
  by (simp add: placeMicroH_def placeMicro_def stackedBlock_def stackStart_def
      Let_def getPlannedH_eq blocksAt_append tasksAt_append
      tracks_id tracks_append tracks_append_push
      split: option.splits)

lemma goalDayH_tracks:
  assumes "live h r" and "gr < length h" and "tasksAt h gr = gts"
  shows "tracks r h (fst (goalDayH g cap ws we gr r d (h, ids, n)))
           (fst (goalDay g cap ws we gts d (blocksAt h r, ids, n))) \<and>
         snd (goalDayH g cap ws we gr r d (h, ids, n)) =
           snd (goalDay g cap ws we gts d (blocksAt h r, ids, n))"
  using assms live_less [OF assms(1)]
  by (simp add: goalDayH_def goalDay_def stackedBlock_def stackStart_def
      totalMinsOf_def bufferOf_def Let_def wouldExceedH_eq getPlannedH_eq getDeepH_eq
      blocksAt_append tasksAt_append
      js_add_Num_assoc js_sub_Num_assoc tracks_id tracks_append tracks_append_push
      split: option.splits jsnum.splits)

lemma tracks_live: "tracks r h h' bs \<Longrightarrow> live h' r"
  by (simp add: tracks_def)

lemma tracks_blocks: "tracks r h h' bs \<Longrightarrow> blocksAt h' r = bs"
  by (simp add: tracks_def)

lemma tracks_grows: "tracks r h h' bs \<Longrightarrow> grows r h h'"
  by (simp add: tracks_def)

lemma foldl_tracks:
  assumes step: "\<And>h x. live h r \<Longrightarrow> I h \<Longrightarrow> tracks r h (F h x) (f (blocksAt h r) x)"
    and inv: "\<And>h h'. I h \<Longrightarrow> grows r h h' \<Longrightarrow> I h'"
    and "live h r" and "I h"
  shows "tracks r h (foldl F h xs) (foldl f (blocksAt h r) xs)"
  using assms(3,4)
proof (induction xs arbitrary: h)
  case Nil
  then show ?case by (simp add: tracks_id)
next
  case (Cons x xs)
  from step [OF Cons.prems, of x] have t: "tracks r h (F h x) (f (blocksAt h r) x)" .
  from Cons.IH [OF tracks_live [OF t] inv [OF Cons.prems(2) tracks_grows [OF t]]]
  have "tracks r (F h x) (foldl F (F h x) xs) (foldl f (f (blocksAt h r) x) xs)"
    by (simp add: tracks_blocks [OF t])
  with t show ?case by (simp add: tracks_trans)
qed

lemma goalDaysH_tracks:
  assumes "live h r" and "gr < length h" and "gr \<noteq> r" and "tasksAt h gr = gts"
  shows "tracks r h (fst (goalDaysH g cap ws we q gr r ds (h, ids, n)))
           (fst (goalDays g cap ws we q gts ds (blocksAt h r, ids, n))) \<and>
         snd (goalDaysH g cap ws we q gr r ds (h, ids, n)) =
           snd (goalDays g cap ws we q gts ds (blocksAt h r, ids, n))"
  using assms
proof (induction ds arbitrary: h ids n)
  case Nil
  then show ?case by (simp add: tracks_id)
next
  case (Cons d ds)
  show ?case
  proof (cases "q \<le> n")
    case True
    with Cons.prems show ?thesis by (simp add: tracks_id)
  next
    case False
    obtain h1 ids1 n1 where s1: "goalDayH g cap ws we gr r d (h, ids, n) = (h1, ids1, n1)"
      by (cases "goalDayH g cap ws we gr r d (h, ids, n)")
    obtain b1 where p1: "goalDay g cap ws we gts d (blocksAt h r, ids, n) = (b1, ids1, n1)"
      using goalDayH_tracks [OF Cons.prems(1,2,4), of g cap ws we d ids n] s1
      by (cases "goalDay g cap ws we gts d (blocksAt h r, ids, n)") simp
    from goalDayH_tracks [OF Cons.prems(1,2,4), of g cap ws we d ids n] s1 p1
    have t: "tracks r h h1 b1" by simp
    have g1: "gr < length h1"
      using grows_length [OF tracks_grows [OF t]] Cons.prems(2) by simp
    have ts1: "tasksAt h1 gr = gts"
      using tasksAt_grows [OF tracks_grows [OF t] Cons.prems(2,3)] Cons.prems(4) by simp
    from Cons.IH [OF tracks_live [OF t] g1 Cons.prems(3) ts1, of ids1 n1]
    have "tracks r h1 (fst (goalDaysH g cap ws we q gr r ds (h1, ids1, n1)))
            (fst (goalDays g cap ws we q gts ds (b1, ids1, n1))) \<and>
          snd (goalDaysH g cap ws we q gr r ds (h1, ids1, n1)) =
            snd (goalDays g cap ws we q gts ds (b1, ids1, n1))"
      by (simp add: tracks_blocks [OF t])
    with t False show ?thesis
      by (auto simp add: s1 p1 intro: tracks_trans)
  qed
qed

lemma scheduleGoalH_tracks:
  assumes "live h r" and "tr < length h" and "tasksAt h tr = ts"
    and "dr < length h" and "strsAt h dr = dd"
  shows "tracks r h (fst (scheduleGoalH g cap ws we tr dr r (h, ids) goal))
           (fst (scheduleGoal g cap ws we ts dd (blocksAt h r, ids) goal)) \<and>
         snd (scheduleGoalH g cap ws we tr dr r (h, ids) goal) =
           snd (scheduleGoal g cap ws we ts dd (blocksAt h r, ids) goal)"
proof (cases "quotaSessions goal \<le> 0")
  case True
  with assms(1) show ?thesis
    by (simp add: scheduleGoalH_def scheduleGoal_def tracks_id)
next
  case False
  let ?gts = "filter (\<lambda>t. \<not> completed t \<and> taskType t = GoalTask \<and>
                          goalId t = Some (goal_id goal) \<and> task_id t \<notin> ids) ts"
  let ?h1 = "h @ [TaskArr ?gts]"
  have r: "r < length h" using assms(1) by (rule live_less)
  have l1: "live ?h1 r" using assms(1) by (rule live_append)
  have g1: "length h < length ?h1" by simp
  have n1: "length h \<noteq> r" using r by simp
  have t1: "tasksAt ?h1 (length h) = ?gts" by (simp add: tasksAt_def)
  from goalDaysH_tracks [OF l1 g1 n1 t1, of g cap ws we "quotaSessions goal" dd ids 0]
  have "tracks r ?h1 (fst (goalDaysH g cap ws we (quotaSessions goal) (length h) r dd (?h1, ids, 0)))
          (fst (goalDays g cap ws we (quotaSessions goal) ?gts dd (blocksAt h r, ids, 0))) \<and>
        snd (goalDaysH g cap ws we (quotaSessions goal) (length h) r dd (?h1, ids, 0)) =
          snd (goalDays g cap ws we (quotaSessions goal) ?gts dd (blocksAt h r, ids, 0))"
    by (simp add: blocksAt_append r)
  moreover have "tracks r h ?h1 (blocksAt h r)" using assms(1) by (rule tracks_append)
  ultimately show ?thesis
    using False assms(2-5)
    by (auto simp add: scheduleGoalH_def scheduleGoal_def alloc_def Let_def strsAt_append
        case_prod_beta intro: tracks_trans)
qed

lemma foldl_scheduleGoalH:
  assumes "live h r" and "tr < length h" and "tr \<noteq> r" and "tasksAt h tr = ts"
    and "dr < length h" and "dr \<noteq> r" and "strsAt h dr = dd"
  shows "tracks r h (fst (foldl (scheduleGoalH g cap ws we tr dr r) (h, ids) gs))
           (fst (foldl (scheduleGoal g cap ws we ts dd) (blocksAt h r, ids) gs)) \<and>
         snd (foldl (scheduleGoalH g cap ws we tr dr r) (h, ids) gs) =
           snd (foldl (scheduleGoal g cap ws we ts dd) (blocksAt h r, ids) gs)"
  using assms
proof (induction gs arbitrary: h ids)
  case Nil
  then show ?case by (simp add: tracks_id)
next
  case (Cons goal gs)
  obtain h1 ids1 where s1: "scheduleGoalH g cap ws we tr dr r (h, ids) goal = (h1, ids1)"
    by (cases "scheduleGoalH g cap ws we tr dr r (h, ids) goal")
  note step = scheduleGoalH_tracks [OF Cons.prems(1,2,4,5,7), of g cap ws we ids goal]
  obtain b1 where p1: "scheduleGoal g cap ws we ts dd (blocksAt h r, ids) goal = (b1, ids1)"
    using step s1 by (cases "scheduleGoal g cap ws we ts dd (blocksAt h r, ids) goal") simp
  from step s1 p1 have t: "tracks r h h1 b1" by simp
  note gr = tracks_grows [OF t]
  have a: "tr < length h1" "dr < length h1"
    using grows_length [OF gr] Cons.prems(2,5) by simp_all
  have b: "tasksAt h1 tr = ts" "strsAt h1 dr = dd"
    using tasksAt_grows [OF gr Cons.prems(2,3)] strsAt_grows [OF gr Cons.prems(5,6)]
      Cons.prems(4,7) by simp_all
  from Cons.IH [OF tracks_live [OF t] a(1) Cons.prems(3) b(1) a(2) Cons.prems(6) b(2), of ids1]
  have "tracks r h1 (fst (foldl (scheduleGoalH g cap ws we tr dr r) (h1, ids1) gs))
          (fst (foldl (scheduleGoal g cap ws we ts dd) (b1, ids1) gs)) \<and>
        snd (foldl (scheduleGoalH g cap ws we tr dr r) (h1, ids1) gs) =
          snd (foldl (scheduleGoal g cap ws we ts dd) (b1, ids1) gs)"
    by (simp add: tracks_blocks [OF t])
  with t show ?case by (auto simp add: s1 p1 intro: tracks_trans)
qed

lemma goalsAt_append: "a < length h \<Longrightarrow> goalsAt (h @ hs) a = goalsAt h a"
  by (simp add: goalsAt_def nth_append)

lemma blocksAt_update: "r < length h \<Longrightarrow> blocksAt (h[r := BlockArr bs]) r = bs"
  by (simp add: blocksAt_def)

lemma tasksAt_fresh: "tasksAt (h @ [TaskArr ts]) (length h) = ts"
  by (simp add: tasksAt_def)

lemma fixedPassH_tracks:
  assumes l: "live h r" and tr: "tr < length h" "tasksAt h tr = ts"
    and dr: "dr < length h" "dr \<noteq> r" "strsAt h dr = dd"
  shows "fst (fixedPassH g cap tr dr r h) = length h \<and>
         tracks r h (snd (fixedPassH g cap tr dr r h))
           (foldl (placeFixed g cap dd) (blocksAt h r) (filter isFixedTask ts)) \<and>
         tasksAt (snd (fixedPassH g cap tr dr r h)) (length h) = filter isFixedTask ts"
proof -
  let ?fx = "filter isFixedTask ts"
  let ?h1 = "h @ [TaskArr ?fx]"
  let ?hf = "foldl (placeFixedH g cap dr r) ?h1 ?fx"
  have r: "r < length h" using l by (rule live_less)
  have eq: "fixedPassH g cap tr dr r h = (length h, ?hf)"
    using tr by (simp add: fixedPassH_def alloc_def tasksAt_fresh)
  have "tracks r ?h1 ?hf (foldl (placeFixed g cap dd) (blocksAt ?h1 r) ?fx)"
  proof (rule foldl_tracks [where I = "\<lambda>x. dr < length x \<and> strsAt x dr = dd"])
    fix x t assume "live x r" and "dr < length x \<and> strsAt x dr = dd"
    then show "tracks r x (placeFixedH g cap dr r x t) (placeFixed g cap dd (blocksAt x r) t)"
      by (simp add: placeFixedH_tracks)
  next
    fix x x' assume "dr < length x \<and> strsAt x dr = dd" and "grows r x x'"
    then show "dr < length x' \<and> strsAt x' dr = dd"
      using dr(2) grows_length [of r x x'] strsAt_grows [of r x x' dr] by simp
  next
    show "live ?h1 r" using l by (rule live_append)
    show "dr < length ?h1 \<and> strsAt ?h1 dr = dd" using dr by (simp add: strsAt_append)
  qed
  then have t1: "tracks r ?h1 ?hf (foldl (placeFixed g cap dd) (blocksAt h r) ?fx)"
    by (simp add: blocksAt_append r)
  have t: "tracks r h ?hf (foldl (placeFixed g cap dd) (blocksAt h r) ?fx)"
    using tracks_append [OF l, of "[TaskArr ?fx]"] t1 by (rule tracks_trans)
  have "tasksAt ?hf (length h) = tasksAt ?h1 (length h)"
    using tasksAt_grows [OF tracks_grows [OF t1], of "length h"] r by simp
  then have "tasksAt ?hf (length h) = ?fx" by (simp add: tasksAt_fresh)
  with t eq show ?thesis by simp
qed

lemma deadlinePassH_tracks:
  assumes l: "live h r" and tr: "tr < length h" "tasksAt h tr = ts"
    and fr: "tasksAt h fr = filter isFixedTask ts"
    and dr: "dr < length h" "dr \<noteq> r" "strsAt h dr = dd"
  shows "tracks r h (deadlinePassH g cap tr fr dr r h) (deadlinePass g cap dd ts (blocksAt h r))"
proof -
  let ?dl = "filter (isDeadlineTask (filter isFixedTask ts)) ts"
  let ?h1 = "h @ [TaskArr ?dl]"
  let ?F = "placeDeadlineH g cap (timeToMinutes (workStart cap)) (timeToMinutes (workEnd cap)) dr r"
  let ?f = "placeDeadline g cap (timeToMinutes (workStart cap)) (timeToMinutes (workEnd cap)) dd"
  have r: "r < length h" using l by (rule live_less)
  have eq: "deadlinePassH g cap tr fr dr r h = foldl ?F ?h1 ?dl"
    using tr fr by (simp add: deadlinePassH_def alloc_def tasksAt_fresh)
  have "tracks r ?h1 (foldl ?F ?h1 ?dl) (foldl ?f (blocksAt ?h1 r) ?dl)"
  proof (rule foldl_tracks [where I = "\<lambda>x. dr < length x \<and> strsAt x dr = dd"])
    fix x t assume "live x r" and "dr < length x \<and> strsAt x dr = dd"
    then show "tracks r x (?F x t) (?f (blocksAt x r) t)"
      by (simp add: placeDeadlineH_tracks)
  next
    fix x x' assume "dr < length x \<and> strsAt x dr = dd" and "grows r x x'"
    then show "dr < length x' \<and> strsAt x' dr = dd"
      using dr(2) grows_length [of r x x'] strsAt_grows [of r x x' dr] by simp
  next
    show "live ?h1 r" using l by (rule live_append)
    show "dr < length ?h1 \<and> strsAt ?h1 dr = dd" using dr by (simp add: strsAt_append)
  qed
  then have t1: "tracks r ?h1 (foldl ?F ?h1 ?dl) (deadlinePass g cap dd ts (blocksAt h r))"
    by (simp add: blocksAt_append r deadlinePass_def)
  have "tracks r h (foldl ?F ?h1 ?dl) (deadlinePass g cap dd ts (blocksAt h r))"
    using tracks_append [OF l, of "[TaskArr ?dl]"] t1 by (rule tracks_trans)
  then show ?thesis
    by (simp only: eq)
qed

lemma goalPassH_tracks:
  assumes l: "live h r" and tr: "tr < length h" "tr \<noteq> r" "tasksAt h tr = ts"
    and gr: "gr < length h" "goalsAt h gr = gs"
    and dr: "dr < length h" "dr \<noteq> r" "strsAt h dr = dd"
  shows "tracks r h (goalPassH g cap gr tr dr r h) (goalPass g cap dd gs ts (blocksAt h r))"
proof -
  let ?ids = "map taskId (blocksAt h r)"
  let ?ag = "sort_key priorityTier (filter active gs)"
  let ?h3 = "h @ [StrArr ?ids, GoalArr ?ag]"
  let ?F = "scheduleGoalH g cap (timeToMinutes (workStart cap)) (timeToMinutes (workEnd cap)) tr dr r"
  let ?f = "scheduleGoal g cap (timeToMinutes (workStart cap)) (timeToMinutes (workEnd cap)) ts dd"
  have r: "r < length h" using l by (rule live_less)
  have eq: "goalPassH g cap gr tr dr r h = fst (foldl ?F (?h3, set ?ids) ?ag)"
    using gr
    by (simp add: goalPassH_def alloc_def Let_def)
      (simp add: goalsAt_def strsAt_def nth_append)
  have l3: "live ?h3 r" using l by (rule live_append)
  have "tracks r ?h3 (fst (foldl ?F (?h3, set ?ids) ?ag))
          (fst (foldl ?f (blocksAt ?h3 r, set ?ids) ?ag))"
    using foldl_scheduleGoalH [OF l3, of tr ts dr dd g cap "timeToMinutes (workStart cap)"
        "timeToMinutes (workEnd cap)" "set ?ids" ?ag] tr dr
    by (simp add: tasksAt_append strsAt_append)
  then have "tracks r ?h3 (goalPassH g cap gr tr dr r h) (goalPass g cap dd gs ts (blocksAt h r))"
    by (simp add: eq goalPass_def blocksAt_append r)
  with tracks_append [OF l, of "[StrArr ?ids, GoalArr ?ag]"] show ?thesis
    by (rule tracks_trans)
qed

lemma microPassH_tracks:
  assumes l: "live h r" and tr: "tr < length h" "tasksAt h tr = ts"
    and dr: "dr < length h" "strsAt h dr = dd"
  shows "tracks r h (microPassH g cap tr dr r h) (microPass g cap dd ts (blocksAt h r))"
proof -
  let ?mt = "filter isMicroTask ts"
  let ?h1 = "h @ [TaskArr ?mt]"
  let ?F = "placeMicroH g cap (timeToMinutes (workStart cap)) (timeToMinutes (workEnd cap))
              (length h) r"
  let ?f = "placeMicro g cap (timeToMinutes (workStart cap)) (timeToMinutes (workEnd cap)) ?mt"
  have r: "r < length h" using l by (rule live_less)
  have eq: "microPassH g cap tr dr r h = foldl ?F ?h1 dd"
    using tr dr by (simp add: microPassH_def alloc_def strsAt_append tasksAt_fresh)
  have "tracks r ?h1 (foldl ?F ?h1 dd) (foldl ?f (blocksAt ?h1 r) dd)"
  proof (rule foldl_tracks [where I = "\<lambda>x. length h < length x \<and> tasksAt x (length h) = ?mt"])
    fix x d assume "live x r" and "length h < length x \<and> tasksAt x (length h) = ?mt"
    then show "tracks r x (?F x d) (?f (blocksAt x r) d)"
      by (simp add: placeMicroH_tracks)
  next
    fix x x' assume "length h < length x \<and> tasksAt x (length h) = ?mt" and "grows r x x'"
    then show "length h < length x' \<and> tasksAt x' (length h) = ?mt"
      using r grows_length [of r x x'] tasksAt_grows [of r x x' "length h"] by simp
  next
    show "live ?h1 r" using l by (rule live_append)
    show "length h < length ?h1 \<and> tasksAt ?h1 (length h) = ?mt" by (simp add: tasksAt_fresh)
  qed
  then have "tracks r ?h1 (microPassH g cap tr dr r h) (microPass g cap dd ts (blocksAt h r))"
    by (simp add: eq blocksAt_append r microPass_def)
  with tracks_append [OF l, of "[TaskArr ?mt]"] show ?thesis
    by (rule tracks_trans)
qed

text \<open>What a store that grew out of another still holds at the old addresses.\<close>

lemma tracks_keeps:
  assumes t: "tracks r h h' bs" and a: "a < length h" "a \<noteq> r"
  shows "a < length h'" and "tasksAt h' a = tasksAt h a" and "strsAt h' a = strsAt h a"
    and "goalsAt h' a = goalsAt h a"
  using grows_length [OF tracks_grows [OF t]] a tasksAt_grows [OF tracks_grows [OF t] a]
    strsAt_grows [OF tracks_grows [OF t] a] goalsAt_grows [OF tracks_grows [OF t] a]
  by simp_all

lemma runWeeklySchedulerH_invalid:
  "cal ws = None \<Longrightarrow>
   runWeeklySchedulerH g cal h s ws = (Inl RangeError, h @ [BlockArr [], StrArr []])"
  by (simp add: runWeeklySchedulerH_def alloc_def Let_def)

lemma runWeeklySchedulerH_valid:
  assumes w: "cal ws = Some dd"
    and v: "goalsRef s < length h" "tasksRef s < length h" "capacityRef s < length h"
  shows "fst (runWeeklySchedulerH g cal h s ws) = Inr (length h) \<and>
         grows (length h) (h @ [BlockArr [], StrArr dd]) (snd (runWeeklySchedulerH g cal h s ws)) \<and>
         blocksAt (snd (runWeeklySchedulerH g cal h s ws)) (length h) =
           sortBlocks (allocate g (stateOf h s) dd)"
proof -
  let ?r = "length h"
  let ?dr = "Suc (length h)"
  let ?tr = "tasksRef s"
  let ?gr = "goalsRef s"
  let ?cap = "capacityOf (stateOf h s)"
  let ?ts = "tasks (stateOf h s)"
  let ?gs = "goals (stateOf h s)"
  let ?h2 = "h @ [BlockArr [], StrArr dd]"
  have cap: "capacityOf (stateOf (h @ [BlockArr []]) s) = ?cap"
    using v by (simp add: capacityOf_def stateOf_def capAt_def nth_append)
  have l2: "live ?h2 ?r" by (simp add: live_def nth_append)
  have b2: "blocksAt ?h2 ?r = []" by (simp add: blocksAt_def nth_append)
  have tr2: "?tr < length ?h2" "?tr \<noteq> ?r" "tasksAt ?h2 ?tr = ?ts"
    using v by (simp_all add: stateOf_def tasksAt_append)
  have gr2: "?gr < length ?h2" "?gr \<noteq> ?r" "goalsAt ?h2 ?gr = ?gs"
    using v by (simp_all add: stateOf_def goalsAt_append)
  have dr2: "?dr < length ?h2" "?dr \<noteq> ?r" "strsAt ?h2 ?dr = dd"
    by (simp_all add: strsAt_def nth_append)
  obtain fr h3 where p1: "fixedPassH g ?cap ?tr ?dr ?r ?h2 = (fr, h3)"
    by (cases "fixedPassH g ?cap ?tr ?dr ?r ?h2")
  from fixedPassH_tracks [OF l2 tr2(1,3) dr2, of g ?cap] p1
  have t3: "tracks ?r ?h2 h3 (fixedPass g ?cap dd ?ts)"
    and f3: "tasksAt h3 fr = filter isFixedTask ?ts"
    by (simp_all add: b2 fixedPass_def)
  note k3 = tracks_keeps [OF t3]
  let ?h4 = "deadlinePassH g ?cap ?tr fr ?dr ?r h3"
  have t4': "tracks ?r h3 ?h4 (deadlinePass g ?cap dd ?ts (fixedPass g ?cap dd ?ts))"
    using deadlinePassH_tracks [OF tracks_live [OF t3], of ?tr ?ts fr ?dr dd g ?cap]
      k3(1) [OF tr2(1,2)] k3(2) [OF tr2(1,2)] tr2(3) f3
      k3(1) [OF dr2(1,2)] k3(3) [OF dr2(1,2)] dr2(2,3)
    by (simp add: tracks_blocks [OF t3])
  have t4: "tracks ?r ?h2 ?h4 (deadlinePass g ?cap dd ?ts (fixedPass g ?cap dd ?ts))"
    using t3 t4' by (rule tracks_trans)
  note k4 = tracks_keeps [OF t4]
  let ?h5 = "goalPassH g ?cap ?gr ?tr ?dr ?r ?h4"
  have t5': "tracks ?r ?h4 ?h5 (priorityBlocks g (stateOf h s) dd)"
    using goalPassH_tracks [OF tracks_live [OF t4], of ?tr ?ts ?gr ?gs ?dr dd g ?cap]
      k4(1) [OF tr2(1,2)] k4(2) [OF tr2(1,2)] tr2(2,3)
      k4(1) [OF gr2(1,2)] k4(4) [OF gr2(1,2)] gr2(3)
      k4(1) [OF dr2(1,2)] k4(3) [OF dr2(1,2)] dr2(2,3)
    by (simp add: tracks_blocks [OF t4] priorityBlocks_def Let_def)
  have t5: "tracks ?r ?h2 ?h5 (priorityBlocks g (stateOf h s) dd)"
    using t4 t5' by (rule tracks_trans)
  note k5 = tracks_keeps [OF t5]
  let ?h6 = "microPassH g ?cap ?tr ?dr ?r ?h5"
  have t6': "tracks ?r ?h5 ?h6 (allocate g (stateOf h s) dd)"
    using microPassH_tracks [OF tracks_live [OF t5], of ?tr ?ts ?dr dd g ?cap]
      k5(1) [OF tr2(1,2)] k5(2) [OF tr2(1,2)] tr2(3)
      k5(1) [OF dr2(1,2)] k5(3) [OF dr2(1,2)] dr2(3)
    by (simp add: tracks_blocks [OF t5] allocate_def)
  have t6: "tracks ?r ?h2 ?h6 (allocate g (stateOf h s) dd)"
    using t5 t6' by (rule tracks_trans)
  let ?hf = "?h6[?r := BlockArr (sortBlocks (blocksAt ?h6 ?r))]"
  have eq: "runWeeklySchedulerH g cal h s ws = (Inr ?r, ?hf)"
    using w
    by (simp add: runWeeklySchedulerH_def alloc_def Let_def cap strsAt_def nth_append
        list_update_append p1)
  have "grows ?r ?h6 ?hf" by (rule grows_update)
  with tracks_grows [OF t6] have g: "grows ?r ?h2 ?hf" by (rule grows_trans)
  have "blocksAt ?hf ?r = sortBlocks (allocate g (stateOf h s) dd)"
    using live_less [OF tracks_live [OF t6]]
    by (simp add: blocksAt_update tracks_blocks [OF t6])
  with g eq show ?thesis by simp
qed

lemma take_frame_nth:
  assumes "take (length h) h' = h" and "a < length h"
  shows "a < length h'" and "h' ! a = h ! a"
proof -
  from assms(1) have "length (take (length h) h') = length h" by simp
  with assms(2) show "a < length h'" by simp
  from assms(2) have "take (length h) h' ! a = h' ! a" by simp
  with assms(1) show "h' ! a = h ! a" by simp
qed

lemma stateOf_frame:
  assumes "take (length h) h' = h"
    and "goalsRef s < length h" "tasksRef s < length h" "scheduledBlocksRef s < length h"
      "capacityRef s < length h"
  shows "stateOf h' s = stateOf h s"
  using take_frame_nth [OF assms(1,2)] take_frame_nth [OF assms(1,3)]
    take_frame_nth [OF assms(1,4)] take_frame_nth [OF assms(1,5)] assms(2-5)
  by (simp add: stateOf_def goalsAt_def tasksAt_def blocksAt_def capAt_def)

lemma runWeeklySchedulerH_frame:
  assumes "goalsRef s < length h" "tasksRef s < length h" "capacityRef s < length h"
  shows "take (length h) (snd (runWeeklySchedulerH g cal h s ws)) = h"
proof (cases "cal ws")
  case None
  then show ?thesis by (simp add: runWeeklySchedulerH_invalid)
next
  case (Some dd)
  from runWeeklySchedulerH_valid [where cal = cal and ws = ws and g = g, OF Some assms]
  have "grows (length h) (h @ [BlockArr [], StrArr dd]) (snd (runWeeklySchedulerH g cal h s ws))"
    by simp
  from grows_frame [OF this, of "length h"] show ?thesis by simp
qed

lemma runWeeklySchedulerH_result:
  assumes "goalsRef s < length h" "tasksRef s < length h" "capacityRef s < length h"
  shows "resultBlocks (runWeeklySchedulerH g cal h s ws) = runWeeklyScheduler g cal (stateOf h s) ws"
    and "freshResult h (runWeeklySchedulerH g cal h s ws)"
proof -
  show "resultBlocks (runWeeklySchedulerH g cal h s ws) = runWeeklyScheduler g cal (stateOf h s) ws"
  proof (cases "cal ws")
    case None
    then show ?thesis
      by (simp add: runWeeklySchedulerH_invalid resultBlocks_def runWeeklyScheduler_def)
  next
    case (Some dd)
    from runWeeklySchedulerH_valid [where cal = cal and ws = ws and g = g, OF Some assms] Some show ?thesis
      by (simp add: resultBlocks_def runWeeklyScheduler_def)
  qed
  show "freshResult h (runWeeklySchedulerH g cal h s ws)"
  proof (cases "cal ws")
    case None
    then show ?thesis by (simp add: runWeeklySchedulerH_invalid freshResult_def)
  next
    case (Some dd)
    from runWeeklySchedulerH_valid [where cal = cal and ws = ws and g = g, OF Some assms] show ?thesis
      by (simp add: freshResult_def)
  qed
qed

text \<open>
  Claim C7. In a store \<open>h\<close> that holds the arrays of the state and a block array, after
  \<open>runWeeklyScheduler\<close>, \<open>getPlannedMinutesForDay\<close>, \<open>getDeepBlockCountForDay\<close>,
  \<open>wouldExceedDailyLimits\<close> or \<open>getWeeklyPlannedMinutes\<close> every cell of \<open>h\<close> holds what
  it held: the goals, the tasks, the capacity settings, the scheduled blocks of the state
  and the block array passed in are unchanged. The array that \<open>runWeeklyScheduler\<close>
  returns lies beyond the cells of \<open>h\<close>, so it is new, and holds the result of the
  function over values; when the week start is no date, the store has only grown. The
  objects inside the arrays are values in this model: that none of them is changed rests
  on the source having no assignment to a property of a goal, task, block or capacity
  object in these functions.
\<close>

theorem scheduler_and_queries_keep_store:
  assumes v: "goalsRef s < length h" "tasksRef s < length h" "scheduledBlocksRef s < length h"
      "capacityRef s < length h"
    and b: "blocks < length h"
  shows "take (length h) (snd (runWeeklySchedulerH g cal h s ws)) = h \<and>
         stateOf (snd (runWeeklySchedulerH g cal h s ws)) s = stateOf h s \<and>
         freshResult h (runWeeklySchedulerH g cal h s ws) \<and>
         resultBlocks (runWeeklySchedulerH g cal h s ws) = runWeeklyScheduler g cal (stateOf h s) ws \<and>
         take (length h) (snd (getPlannedMinutesForDayH h blocks d i)) = h \<and>
         fst (getPlannedMinutesForDayH h blocks d i) =
           getPlannedMinutesForDay (blocksAt h blocks) d i \<and>
         take (length h) (snd (getDeepBlockCountForDayH h blocks d)) = h \<and>
         fst (getDeepBlockCountForDayH h blocks d) =
           getDeepBlockCountForDay (blocksAt h blocks) d \<and>
         take (length h) (snd (wouldExceedDailyLimitsH h cap blocks d n e)) = h \<and>
         fst (wouldExceedDailyLimitsH h cap blocks d n e) =
           wouldExceedDailyLimits cap (blocksAt h blocks) d n e \<and>
         take (length h) (snd (getWeeklyPlannedMinutesH cal h blocks ws)) = h \<and>
         fst (getWeeklyPlannedMinutesH cal h blocks ws) =
           getWeeklyPlannedMinutes cal (blocksAt h blocks) ws"
proof -
  note f = runWeeklySchedulerH_frame [OF v(1,2,4), of g cal ws]
  have run: "take (length h) (snd (runWeeklySchedulerH g cal h s ws)) = h \<and>
         stateOf (snd (runWeeklySchedulerH g cal h s ws)) s = stateOf h s \<and>
         freshResult h (runWeeklySchedulerH g cal h s ws) \<and>
         resultBlocks (runWeeklySchedulerH g cal h s ws) = runWeeklyScheduler g cal (stateOf h s) ws"
    using f stateOf_frame [OF f v] runWeeklySchedulerH_result [OF v(1,2,4), of g cal ws] by simp
  have p: "take (length h) (snd (getPlannedMinutesForDayH h blocks d i)) = h \<and>
         fst (getPlannedMinutesForDayH h blocks d i) =
           getPlannedMinutesForDay (blocksAt h blocks) d i"
    by (simp add: getPlannedH_eq)
  have k: "take (length h) (snd (getDeepBlockCountForDayH h blocks d)) = h \<and>
         fst (getDeepBlockCountForDayH h blocks d) =
           getDeepBlockCountForDay (blocksAt h blocks) d"
    by (simp add: getDeepH_eq)
  have c: "take (length h) (snd (wouldExceedDailyLimitsH h cap blocks d n e)) = h \<and>
         fst (wouldExceedDailyLimitsH h cap blocks d n e) =
           wouldExceedDailyLimits cap (blocksAt h blocks) d n e"
    using b by (simp add: wouldExceedH_eq)
  from getWeeklyH_snd [of cal h blocks ws] obtain hs where
    "snd (getWeeklyPlannedMinutesH cal h blocks ws) = h @ hs" by blast
  then have w: "take (length h) (snd (getWeeklyPlannedMinutesH cal h blocks ws)) = h \<and>
         fst (getWeeklyPlannedMinutesH cal h blocks ws) =
           getWeeklyPlannedMinutes cal (blocksAt h blocks) ws"
    using getWeeklyH_fst [OF b, of cal ws] by simp
  from run p k c w show ?thesis by blast
qed

theorem scheduler_and_queries_keep_store_witness:
  "take 4 (snd (runWeeklySchedulerH sampleIds sampleCalendar sampleHeap sampleRefs ''2025-02-24'')) =
     sampleHeap \<and>
   stateOf (snd (runWeeklySchedulerH sampleIds sampleCalendar sampleHeap sampleRefs ''2025-02-24''))
     sampleRefs =
     \<lparr>goals = [], tasks = [fixedHour],
      scheduledBlocks = [pendingBlock ''t0'' ''2025-02-17'' ''09:00'' ''10:30'' 15 Deep 1],
      capacity = None\<rparr> \<and>
   resultBlocks (runWeeklySchedulerH sampleIds sampleCalendar sampleHeap sampleRefs ''2025-02-24'') =
     Inr [pendingBlock ''t1'' ''2025-02-24'' ''09:00'' ''10:30'' 15 Deep 1] \<and>
   take 4 (snd (wouldExceedDailyLimitsH sampleHeap DEFAULT_CAPACITY 2 ''2025-02-17'' 60 Deep)) =
     sampleHeap \<and>
   ok (fst (wouldExceedDailyLimitsH sampleHeap DEFAULT_CAPACITY 2 ''2025-02-17'' 60 Deep))"
proof -
  let ?st = "\<lparr>goals = [], tasks = [fixedHour],
               scheduledBlocks = [pendingBlock ''t0'' ''2025-02-17'' ''09:00'' ''10:30'' 15 Deep 1],
               capacity = None\<rparr>"
  have len: "length sampleHeap = 4"
    by (simp add: sampleHeap_def)
  have refs: "goalsRef sampleRefs < length sampleHeap" "tasksRef sampleRefs < length sampleHeap"
    "scheduledBlocksRef sampleRefs < length sampleHeap" "capacityRef sampleRefs < length sampleHeap"
    "2 < length sampleHeap"
    by (simp_all add: sampleRefs_def len)
  have st: "stateOf sampleHeap sampleRefs = ?st"
    by (simp add: stateOf_def sampleHeap_def sampleRefs_def goalsAt_def tasksAt_def blocksAt_def
        capAt_def)
  have run: "runWeeklyScheduler sampleIds sampleCalendar ?st ''2025-02-24'' =
               Inr [pendingBlock ''t1'' ''2025-02-24'' ''09:00'' ''10:30'' 15 Deep 1]"
    by (simp add: runWeeklyScheduler_def sampleCalendar_week)
      (simp add: pass_eval sample_eval time_eval split del: if_split)
  have bl: "blocksAt sampleHeap 2 = [pendingBlock ''t0'' ''2025-02-17'' ''09:00'' ''10:30'' 15 Deep 1]"
    by (simp add: blocksAt_def sampleHeap_def)
  have chk: "ok (wouldExceedDailyLimits DEFAULT_CAPACITY
                  [pendingBlock ''t0'' ''2025-02-17'' ''09:00'' ''10:30'' 15 Deep 1]
                  ''2025-02-17'' 60 Deep)"
    by (simp add: pass_eval sample_eval time_eval split del: if_split)
  from scheduler_and_queries_keep_store [OF refs, where g = sampleIds and cal = sampleCalendar
      and ws = "''2025-02-24''" and d = "''2025-02-17''" and cap = DEFAULT_CAPACITY
      and n = 60 and e = Deep]
  show ?thesis
    by (simp add: len st run bl chk)
qed

end
